theory Spec2Isabelle
  imports Complex_Main "HOL-Library.Multiset"
begin

section \<open>Text: Python strings as character lists\<close>

text \<open>
  A Python \<^verbatim>\<open>str\<close> is modelled as a \<^typ>\<open>string\<close>, one \<^typ>\<open>char\<close> per code point
  (code points below 256). \<^verbatim>\<open>len\<close> is \<^const>\<open>length\<close>, slicing \<^verbatim>\<open>s[7:]\<close> is
  \<^const>\<open>drop\<close> and \<^verbatim>\<open>s[:-8]\<close> is \<^const>\<open>take\<close> of the length less 8.
\<close>

definition dq :: char where
  "dq = CHR 0x22"

definition is_space :: "char \<Rightarrow> bool" where
  "is_space c = (c \<in> set [CHR 0x09, CHR 0x0A, CHR 0x0B, CHR 0x0C, CHR 0x0D,
                           CHR 0x1C, CHR 0x1D, CHR 0x1E, CHR 0x1F, CHR 0x20,
                           CHR 0x85, CHR 0xA0])"

definition strip :: "string \<Rightarrow> string" where
  "strip s = rev (dropWhile is_space (rev (dropWhile is_space s)))"

definition startswith :: "string \<Rightarrow> string \<Rightarrow> bool" where
  "startswith s p = (take (length p) s = p)"

definition endswith :: "string \<Rightarrow> string \<Rightarrow> bool" where
  "endswith s p = (length p \<le> length s \<and> drop (length s - length p) s = p)"

section \<open>The chunker: \<^verbatim>\<open>TTSPipeline._split_ssml\<close>\<close>

definition speak_open :: string where
  "speak_open = ''<speak>''"

definition speak_close :: string where
  "speak_close = ''</speak>''"

text \<open>The f-string \<^verbatim>\<open>f"<speak>{s}</speak>"\<close>.\<close>

definition wrap :: "string \<Rightarrow> string" where
  "wrap s = speak_open @ s @ speak_close"

text \<open>Lines 44 to 48: strip, then remove one leading and one trailing wrapper tag.\<close>

definition strip_wrapper :: "string \<Rightarrow> string" where
  "strip_wrapper ssml =
     (let s0 = strip ssml;
          s1 = (if startswith s0 speak_open then drop 7 s0 else s0);
          s2 = (if endswith s1 speak_close then take (length s1 - 8) s1 else s1)
      in s2)"

subsection \<open>The regular expression of line 53\<close>

definition mark_open :: string where
  "mark_open = ''<mark name='' @ [dq]"

definition mark_close :: string where
  "mark_close = dq # ''/>''"

text \<open>
  A match of the pattern at the very start of the text: the literal opening, a longest
  run of one or more characters other than the double quote, the literal closing. The
  run cannot be shortened by backtracking, as the closing starts with a double quote.
  The result is the matched tag and the text after it.
\<close>

definition match_mark :: "string \<Rightarrow> (string \<times> string) option" where
  "match_mark s =
     (if startswith s mark_open then
        (let body = drop (length mark_open) s;
             name = takeWhile (\<lambda>c. c \<noteq> dq) body;
             rest = dropWhile (\<lambda>c. c \<noteq> dq) body
         in if name \<noteq> [] \<and> startswith rest mark_close
            then Some (mark_open @ name @ mark_close, drop (length mark_close) rest)
            else None)
      else None)"

lemma match_mark_decomp:
  assumes "match_mark s = Some (tag, rest)"
  shows "s = tag @ rest"
proof -
  let ?body = "drop (length mark_open) s"
  let ?name = "takeWhile (\<lambda>c. c \<noteq> dq) ?body"
  let ?r = "dropWhile (\<lambda>c. c \<noteq> dq) ?body"
  from assms have st: "startswith s mark_open"
    by (auto simp: match_mark_def split: if_splits)
  with assms have cl: "startswith ?r mark_close"
    and tag: "tag = mark_open @ ?name @ mark_close"
    and rest: "rest = drop (length mark_close) ?r"
    by (auto simp: match_mark_def Let_def split: if_splits)
  from st have "s = mark_open @ ?body"
    by (metis startswith_def append_take_drop_id)
  moreover have "?body = ?name @ ?r"
    by simp
  moreover from cl have "?r = mark_close @ drop (length mark_close) ?r"
    by (metis startswith_def append_take_drop_id)
  ultimately show ?thesis
    using tag rest by (metis append.assoc)
qed

lemma match_mark_tag_length:
  assumes "match_mark s = Some (tag, rest)"
  shows "16 \<le> length tag"
proof -
  from assms have "takeWhile (\<lambda>c. c \<noteq> dq) (drop (length mark_open) s) \<noteq> []"
    and "tag = mark_open @ takeWhile (\<lambda>c. c \<noteq> dq) (drop (length mark_open) s) @ mark_close"
    by (auto simp: match_mark_def Let_def split: if_splits)
  then show ?thesis
    by (cases "takeWhile (\<lambda>c. c \<noteq> dq) (drop (length mark_open) s)")
       (simp_all add: mark_open_def mark_close_def)
qed

lemma match_mark_shorter:
  assumes "match_mark s = Some (tag, rest)"
  shows "length rest < length s"
proof -
  have "length s = length tag + length rest"
    using match_mark_decomp [OF assms] by simp
  with match_mark_tag_length [OF assms] show ?thesis
    by linarith
qed

text \<open>
  \<^verbatim>\<open>re.split\<close> with one capturing group: the text before the first match, then each
  matched tag followed by the text up to the next match. Matches are searched from left
  to right and do not overlap: after a match the search goes on behind it.
\<close>

function re_split_aux :: "string \<Rightarrow> string \<Rightarrow> string list" where
  "re_split_aux cur [] = [cur]"
| "re_split_aux cur (c # cs) =
     (case match_mark (c # cs) of
        Some (tag, rest) \<Rightarrow> cur # tag # re_split_aux [] rest
      | None \<Rightarrow> re_split_aux (cur @ [c]) cs)"
  by pat_completeness auto
termination
  by (relation "measure (\<lambda>(cur, s). length s)") (auto dest: match_mark_shorter)

definition re_split :: "string \<Rightarrow> string list" where
  "re_split s = re_split_aux [] s"

subsection \<open>The greedy loop of lines 54 to 62\<close>

text \<open>
  The state of the loop is the pair of \<^verbatim>\<open>chunks\<close> and \<^verbatim>\<open>current\<close>; the budget
  \<^verbatim>\<open>max_ssml_length\<close> is a Python \<^verbatim>\<open>int\<close>.
\<close>

fun chunk_loop :: "int \<Rightarrow> string list \<Rightarrow> string list \<Rightarrow> string \<Rightarrow> string list \<times> string" where
  "chunk_loop m [] chunks current = (chunks, current)"
| "chunk_loop m (part # parts) chunks current =
     (if int (length current) + int (length part) > m
      then chunk_loop m parts (chunks @ [wrap current]) part
      else chunk_loop m parts chunks (current @ part))"

definition split_ssml :: "int \<Rightarrow> string \<Rightarrow> string list" where
  "split_ssml m ssml =
     (let s = strip_wrapper ssml in
      if int (length s) \<le> m then [wrap s]
      else (case chunk_loop m (re_split s) [] [] of
              (chunks, current) \<Rightarrow>
                if current \<noteq> [] then chunks @ [wrap current] else chunks))"

text \<open>The content of a chunk: the text between the two wrapper tags.\<close>

definition dewrap :: "string \<Rightarrow> string" where
  "dewrap c = take (length c - 15) (drop 7 c)"

section \<open>The chunk synthesizer: \<^verbatim>\<open>TTSPipeline._synthesize_chunk\<close>\<close>

text \<open>
  Times are Python floats; they are modelled as real numbers, so the sums below are
  exact. Every exception the modelled code can raise is a value of \<open>error\<close>.
\<close>

datatype error =
    ConnectionError
  | HTTPError
  | JSONDecodeError
  | RuntimeError
  | CouldntDecodeError
  | OSError
  | IndexError
  | AttributeError

record timepoint =
  markName :: string
  timeSeconds :: real

record synthesis_result =
  duration :: real
  timepoints :: "timepoint list"

text \<open>
  The request carries the chunk and the voice. The answer of the service is its HTTP
  status and, when the body is JSON, the two keys the code reads, each present or not.
\<close>

record tts_request =
  input_ssml :: string
  voice_name :: string

record tts_data =
  audioContent :: "string option"
  timepoints_key :: "timepoint list option"

record http_response =
  status_ok :: bool
  json_body :: "tts_data option"

text \<open>
  \<open>post\<close> is the external service (\<open>None\<close> when \<^verbatim>\<open>requests.post\<close> itself raises, as
  it does without a connection). The audio content is written to \<^verbatim>\<open>mp3_out\<close> at line 83
  and read back at line 84: \<open>audio_ms\<close> is the length in milliseconds of the audio that
  is read back (\<open>None\<close> when the file cannot be decoded). Line 85 reads
  \<^verbatim>\<open>data.get("timepoints", [])\<close>: a missing key gives the empty list.
\<close>

definition synthesize_chunk ::
  "(tts_request \<Rightarrow> http_response option) \<Rightarrow> (string \<Rightarrow> nat option) \<Rightarrow> string \<Rightarrow> string
   \<Rightarrow> error + synthesis_result" where
  "synthesize_chunk post audio_ms voice ssml_chunk =
     (case post \<lparr>input_ssml = ssml_chunk, voice_name = voice\<rparr> of
        None \<Rightarrow> Inl ConnectionError
      | Some response \<Rightarrow>
          if \<not> status_ok response then Inl HTTPError
          else (case json_body response of
                  None \<Rightarrow> Inl JSONDecodeError
                | Some data \<Rightarrow>
                    (case audioContent data of
                       None \<Rightarrow> Inl RuntimeError
                     | Some audio_data \<Rightarrow>
                         (case audio_ms audio_data of
                            None \<Rightarrow> Inl CouldntDecodeError
                          | Some ms \<Rightarrow>
                              Inr \<lparr>duration = real ms / 1000,
                                   timepoints = (case timepoints_key data of
                                                   None \<Rightarrow> []
                                                 | Some tps \<Rightarrow> tps)\<rparr>))))"

text \<open>
  The effect of the call on the file system: \<^verbatim>\<open>mp3_out\<close> is written when line 83 is
  reached, that is when the answer has a good status, a JSON body and the key
  \<^verbatim>\<open>audioContent\<close> (whose base64 decoding is taken to succeed). A call is modelled by
  this flag together with its outcome.
\<close>

definition writes_audio :: "(tts_request \<Rightarrow> http_response option) \<Rightarrow> string \<Rightarrow> string \<Rightarrow> bool" where
  "writes_audio post voice ssml_chunk =
     (case post \<lparr>input_ssml = ssml_chunk, voice_name = voice\<rparr> of
        None \<Rightarrow> False
      | Some response \<Rightarrow>
          status_ok response \<and>
          (case json_body response of
             None \<Rightarrow> False
           | Some data \<Rightarrow> audioContent data \<noteq> None))"

definition synthesize_to_file ::
  "(tts_request \<Rightarrow> http_response option) \<Rightarrow> (string \<Rightarrow> nat option) \<Rightarrow> string \<Rightarrow> string
   \<Rightarrow> bool \<times> (error + synthesis_result)" where
  "synthesize_to_file post audio_ms voice ssml_chunk =
     (writes_audio post voice ssml_chunk, synthesize_chunk post audio_ms voice ssml_chunk)"

section \<open>The timeline accumulator: the loop of \<^verbatim>\<open>process_chapter\<close>\<close>

text \<open>
  Lines 102 to 112. The loop runs over the outcomes of the synthesis calls, one per
  chunk and in order; an exception of a call leaves the loop and the function. Its state
  is \<^verbatim>\<open>global_timepoints\<close> and \<^verbatim>\<open>offset\<close>.
\<close>

fun timeline_loop ::
  "(error + synthesis_result) list \<Rightarrow> timepoint list \<Rightarrow> real
   \<Rightarrow> error + (timepoint list \<times> real)" where
  "timeline_loop [] global_timepoints offset = Inr (global_timepoints, offset)"
| "timeline_loop (Inl exc # rest) global_timepoints offset = Inl exc"
| "timeline_loop (Inr result # rest) global_timepoints offset =
     timeline_loop rest
       (global_timepoints @
        map (\<lambda>tp. \<lparr>markName = markName tp, timeSeconds = offset + timeSeconds tp\<rparr>)
            (timepoints result))
       (offset + duration result)"

section \<open>Paths and files\<close>

text \<open>
  A \<^verbatim>\<open>pathlib.Path\<close> is its anchor and its parts; \<^verbatim>\<open>Path(s)\<close> has read the string \<open>s\<close>
  into them. \<^verbatim>\<open>str\<close> joins the parts with a slash, and the operator \<^verbatim>\<open>/\<close> with a plain
  file name adds one part.
\<close>

record pure_path =
  path_anchor :: string
  path_parts :: "string list"

fun join_parts :: "string list \<Rightarrow> string" where
  "join_parts [] = []"
| "join_parts [part] = part"
| "join_parts (part # part' # parts) = part @ ''/'' @ join_parts (part' # parts)"

definition path_str :: "pure_path \<Rightarrow> string" where
  "path_str p =
     (if path_anchor p = [] \<and> path_parts p = [] then ''.''
      else path_anchor p @ join_parts (path_parts p))"

definition joinpath :: "pure_path \<Rightarrow> string \<Rightarrow> pure_path" where
  "joinpath p name = p\<lparr>path_parts := path_parts p @ [name]\<rparr>"

fun decimal :: "nat \<Rightarrow> string" where
  "decimal n =
     (if n < 10 then [''0123456789'' ! n]
      else decimal (n div 10) @ [''0123456789'' ! (n mod 10)])"

declare decimal.simps [simp del]

text \<open>Lines 92 and 93, and the name of the chunk file of line 104 within the temp directory.\<close>

definition audio_out :: "pure_path \<Rightarrow> nat \<Rightarrow> pure_path" where
  "audio_out audio_folder chapter_number =
     joinpath audio_folder (''chapter'' @ decimal chapter_number @ ''.mp3'')"

definition timepoints_out :: "pure_path \<Rightarrow> nat \<Rightarrow> pure_path" where
  "timepoints_out timepoint_folder chapter_number =
     joinpath timepoint_folder (''chapter'' @ decimal chapter_number @ ''.json'')"

definition chunk_mp3 :: "nat \<Rightarrow> nat \<Rightarrow> string" where
  "chunk_mp3 chapter_number i =
     ''chapter'' @ decimal chapter_number @ ''_chunk'' @ decimal i @ ''.mp3''"

text \<open>
  The files a run touches: the names of the files in the temp directory
  \<^verbatim>\<open>output/temp\<close>, which all chapters share, and the audio and timepoint files written so
  far, in order. An empty temp directory and a missing one are the same state, as line
  95 creates the directory when it is missing.
\<close>

record disk =
  temp_files :: "string set"
  outputs :: "string list"

text \<open>
  The chunk files the loop of lines 103 to 112 writes, from chunk \<open>i\<close> on: every call
  that reaches line 83 writes its file, and the loop ends with the first call that
  raises.
\<close>

fun written_chunk_files ::
  "nat \<Rightarrow> nat \<Rightarrow> (bool \<times> (error + synthesis_result)) list \<Rightarrow> string list" where
  "written_chunk_files chapter_number i [] = []"
| "written_chunk_files chapter_number i ((wrote, Inl exc) # rest) =
     (if wrote then [chunk_mp3 chapter_number i] else [])"
| "written_chunk_files chapter_number i ((wrote, Inr result) # rest) =
     (if wrote then [chunk_mp3 chapter_number i] else []) @
     written_chunk_files chapter_number (Suc i) rest"

section \<open>One chapter: \<^verbatim>\<open>TTSPipeline.process_chapter\<close>\<close>

text \<open>
  \<^verbatim>\<open>process_chapter\<close>, lines 92 to 124. The text of the script is read, stripped,
  wrapped and split, and every chunk is synthesized into its file in the temp directory.
  An exception of a call leaves the function with the files written so far still
  there. Otherwise the audio is exported (lines 114 to 117, taken to succeed on chunks
  that line 84 has decoded), the chunk files of this chapter are unlinked, and
  \<^verbatim>\<open>temp_dir.rmdir()\<close> raises \<^verbatim>\<open>OSError\<close> when the directory still holds a file; only
  then are the timepoints written and the result returned.
\<close>

definition process_chapter ::
  "int \<Rightarrow> pure_path \<Rightarrow> pure_path \<Rightarrow> (string \<Rightarrow> string)
   \<Rightarrow> (string \<Rightarrow> bool \<times> (error + synthesis_result))
   \<Rightarrow> string \<Rightarrow> nat \<Rightarrow> disk \<Rightarrow> (error + (string \<times> timepoint list)) \<times> disk" where
  "process_chapter max_ssml_length audio_folder timepoint_folder read_text synth
     txt_file chapter_number files =
     (let raw_text = strip (read_text txt_file);
          ssml = wrap raw_text;
          chunks = split_ssml max_ssml_length ssml;
          calls = map synth chunks;
          chunk_files = map (chunk_mp3 chapter_number) [1..<Suc (length chunks)];
          written = files\<lparr>temp_files :=
                      temp_files files \<union> set (written_chunk_files chapter_number 1 calls)\<rparr>
      in case timeline_loop (map snd calls) [] 0 of
           Inl exc \<Rightarrow> (Inl exc, written)
         | Inr (global_timepoints, offset) \<Rightarrow>
             (let exported = written\<lparr>outputs :=
                               outputs written @ [path_str (audio_out audio_folder chapter_number)]\<rparr>;
                  unlinked = exported\<lparr>temp_files := temp_files exported - set chunk_files\<rparr>
              in if temp_files unlinked \<noteq> {} then (Inl OSError, unlinked)
                 else (Inr (path_str (audio_out audio_folder chapter_number), global_timepoints),
                       unlinked\<lparr>outputs :=
                         outputs unlinked @
                         [path_str (timepoints_out timepoint_folder chapter_number)]\<rparr>)))"

section \<open>The batch run: \<^verbatim>\<open>TTSPipeline.process_all\<close>\<close>








section \<open>The video timeline builder: \<^verbatim>\<open>create_chapter_video\<close>\<close>

text \<open>\<^verbatim>\<open>_load_timepoints\<close>: Python's sort is stable, as \<^const>\<open>sort_key\<close> is.\<close>

definition load_timepoints :: "timepoint list \<Rightarrow> real list" where
  "load_timepoints points = map timeSeconds (sort_key timeSeconds points)"

text \<open>Lines 51 and 61 to 62: the interior boundaries, cut to the number of images.\<close>

definition interior_transitions :: "timepoint list \<Rightarrow> string list \<Rightarrow> real list" where
  "interior_transitions points images =
     (let transitions = load_timepoints points
      in if length images < length transitions
         then take (length images) transitions else transitions)"

text \<open>Lines 64 and 65.\<close>

definition all_transitions :: "timepoint list \<Rightarrow> string list \<Rightarrow> real \<Rightarrow> real list" where
  "all_transitions points images duration_total =
     0 # interior_transitions points images @ [duration_total]"

record clip =
  clip_image :: string
  clip_start :: real
  clip_duration :: real

text \<open>The loop of lines 67 to 76 over \<^verbatim>\<open>range(len(transitions) - 1)\<close>.\<close>

fun clip_loop :: "real list \<Rightarrow> string list \<Rightarrow> nat list \<Rightarrow> clip list \<Rightarrow> clip list" where
  "clip_loop transitions images [] clips = clips"
| "clip_loop transitions images (idx # idxs) clips =
     (if idx \<ge> length images then clips
      else (let start = transitions ! idx;
                stop = transitions ! (idx + 1);
                dur = stop - start
            in if dur \<le> 0 then clip_loop transitions images idxs clips
               else clip_loop transitions images idxs
                      (clips @ [\<lparr>clip_image = images ! idx, clip_start = start,
                                 clip_duration = dur\<rparr>])))"

definition build_clips :: "timepoint list \<Rightarrow> string list \<Rightarrow> real \<Rightarrow> clip list" where
  "build_clips points images duration_total =
     (let transitions = all_transitions points images duration_total
      in clip_loop transitions images [0..<length transitions - 1] [])"

datatype video_outcome = Missing_files | No_images | Video "clip list"

text \<open>
  \<^verbatim>\<open>create_chapter_video\<close> up to line 79, where \<^verbatim>\<open>clips[0]\<close> is read. \<open>files_exist\<close>
  says that the audio and the timepoints of the chapter are there; \<open>images\<close> is the
  sorted listing of the chapter's image folder.
\<close>

definition create_chapter_video ::
  "bool \<Rightarrow> real \<Rightarrow> timepoint list \<Rightarrow> string list \<Rightarrow> error + video_outcome" where
  "create_chapter_video files_exist duration_total points images =
     (if \<not> files_exist then Inr Missing_files
      else if images = [] then Inr No_images
      else (let clips = build_clips points images duration_total
            in if clips = [] then Inl IndexError else Inr (Video clips)))"

section \<open>Marker tags and chunks as character ranges\<close>

text \<open>
  The marker tags of a text are the matches of the pattern, searched as \<^verbatim>\<open>re.finditer\<close>
  does: \<open>mark_spans pos s\<close> lists the half-open range of every tag of \<open>s\<close>, where \<open>s\<close>
  starts at position \<open>pos\<close>. The template of \<^verbatim>\<open>text_cleanup.py\<close> writes the tags.
\<close>

definition marker_tpl :: "nat \<Rightarrow> string" where
  "marker_tpl n = mark_open @ ''p'' @ decimal n @ mark_close"

function mark_spans :: "nat \<Rightarrow> string \<Rightarrow> (nat \<times> nat) list" where
  "mark_spans pos [] = []"
| "mark_spans pos (c # cs) =
     (case match_mark (c # cs) of
        Some (tag, rest) \<Rightarrow> (pos, pos + length tag) # mark_spans (pos + length tag) rest
      | None \<Rightarrow> mark_spans (Suc pos) cs)"
  by pat_completeness auto
termination
  by (relation "measure (\<lambda>(pos, s). length s)") (auto dest: match_mark_shorter)

text \<open>
  The range each chunk's content takes in the concatenation of all contents, and the
  positions at which the tokens of \<^verbatim>\<open>re.split\<close> begin and end. A chunk holds a tag whole
  when the range of the tag lies within the range of the chunk.
\<close>

fun chunk_spans :: "nat \<Rightarrow> string list \<Rightarrow> (nat \<times> nat) list" where
  "chunk_spans pos [] = []"
| "chunk_spans pos (c # cs) =
     (pos, pos + length (dewrap c)) # chunk_spans (pos + length (dewrap c)) cs"

fun token_bounds :: "nat \<Rightarrow> string list \<Rightarrow> nat list" where
  "token_bounds pos [] = [pos]"
| "token_bounds pos (p # ps) = pos # token_bounds (pos + length p) ps"

definition holds_whole :: "nat \<times> nat \<Rightarrow> nat \<times> nat \<Rightarrow> bool" where
  "holds_whole tag chunk = (fst chunk \<le> fst tag \<and> snd tag \<le> snd chunk)"

text \<open>A chunk within its budget: the content is short enough, empty, or one of the tokens.\<close>

definition fits :: "int \<Rightarrow> string set \<Rightarrow> string \<Rightarrow> bool" where
  "fits m tokens x = (int (length x) \<le> m \<or> x = [] \<or> x \<in> tokens)"

section \<open>Timelines, intervals and batch outcomes\<close>

text \<open>
  A synthesis result is well timed when its duration is not negative and its local
  timestamps do not decrease and lie within the audio of the chunk.
\<close>

definition well_timed :: "synthesis_result \<Rightarrow> bool" where
  "well_timed r =
     (0 \<le> duration r \<and> sorted (map timeSeconds (timepoints r)) \<and>
      list_all (\<lambda>tp. 0 \<le> timeSeconds tp \<and> timeSeconds tp \<le> duration r) (timepoints r))"

text \<open>
  A failing call of the service: no answer, an error status, a body that is not JSON,
  no \<^verbatim>\<open>audioContent\<close>, or audio that cannot be decoded.
\<close>

definition response_fails :: "(string \<Rightarrow> nat option) \<Rightarrow> http_response option \<Rightarrow> bool" where
  "response_fails audio_ms answer =
     (case answer of
        None \<Rightarrow> True
      | Some response \<Rightarrow>
          \<not> status_ok response \<or>
          (case json_body response of
             None \<Rightarrow> True
           | Some data \<Rightarrow>
               (case audioContent data of
                  None \<Rightarrow> True
                | Some audio_data \<Rightarrow> audio_ms audio_data = None)))"

text \<open>The timestamps an answer carries: those of its \<^verbatim>\<open>timepoints\<close> key, if it has one.\<close>

definition answer_timepoints :: "http_response option \<Rightarrow> timepoint list" where
  "answer_timepoints answer =
     (case answer of
        None \<Rightarrow> []
      | Some response \<Rightarrow>
          (case json_body response of
             None \<Rightarrow> []
           | Some data \<Rightarrow> (case timepoints_key data of None \<Rightarrow> [] | Some tps \<Rightarrow> tps)))"

text \<open>
  A display interval is a clip with its start and its end; a sequence of intervals is
  contiguous when each one ends where the next one starts.
\<close>

definition clip_end :: "clip \<Rightarrow> real" where
  "clip_end c = clip_start c + clip_duration c"

fun contiguous :: "clip list \<Rightarrow> bool" where
  "contiguous [] = True"
| "contiguous [c] = True"
| "contiguous (c # d # cs) = (clip_end c = clip_start d \<and> contiguous (d # cs))"

text \<open>A timeline within the audio: every timestamp lies between 0 and the total duration.\<close>

definition in_range :: "real \<Rightarrow> timepoint list \<Rightarrow> bool" where
  "in_range duration_total points =
     (0 \<le> duration_total \<and>
      list_all (\<lambda>tp. 0 \<le> timeSeconds tp \<and> timeSeconds tp \<le> duration_total) points)"

text \<open>
  The boundary at which the last interval ends: the total duration when there are more
  images than markers, else the marker whose rank in ascending time is the number of
  images.
\<close>

definition last_boundary :: "timepoint list \<Rightarrow> string list \<Rightarrow> real \<Rightarrow> real" where
  "last_boundary points images duration_total =
     (if length points < length images then duration_total
      else sort (map timeSeconds points) ! (length images - 1))"

text \<open>
  The invariant of the clip loop before index \<open>i\<close>: the clips are contiguous from the
  first boundary to boundary \<open>i\<close>, and without a clip the two boundaries are equal.
\<close>

definition chain :: "real list \<Rightarrow> clip list \<Rightarrow> nat \<Rightarrow> bool" where
  "chain T clips i =
     (contiguous clips \<and>
      (clips \<noteq> [] \<longrightarrow> clip_start (hd clips) = T ! 0 \<and> clip_end (last clips) = T ! i) \<and>
      (clips = [] \<longrightarrow> T ! i = T ! 0))"

text \<open>
  A chapter on its own is its run on a disk whose temp directory is empty. What one
  script contributes to a batch run in which every chapter runs as on its own: an entry
  of the summary when the chapter succeeds, a line of the log when it fails. A script is
  numbered when its name holds a digit, and it leaves no file when the run of its
  chapter on its own ends with an empty temp directory.
\<close>

definition clean_disk :: disk where
  "clean_disk = \<lparr>temp_files = {}, outputs = []\<rparr>"





subsection \<open>Sample inputs\<close>

text \<open>
  The document of the scenarios, \<^verbatim>\<open>A*B*C\<close> with its two markers, and a run of two
  chapters whose first one fails: the service rejects it, or it answers with audio that
  cannot be decoded.
\<close>

definition sample_doc :: string where
  "sample_doc = ''A'' @ marker_tpl 1 @ ''B'' @ marker_tpl 2 @ ''C''"

definition sample_read_text :: "string \<Rightarrow> string" where
  "sample_read_text path = (if path = ''scripts/chapter1.txt'' then ''bad'' else sample_doc)"

definition sample_post :: "tts_request \<Rightarrow> http_response option" where
  "sample_post request =
     (if input_ssml request = wrap ''bad''
      then Some \<lparr>status_ok = False, json_body = None\<rparr>
      else Some \<lparr>status_ok = True,
                 json_body = Some \<lparr>audioContent = Some ''SUQz'',
                                   timepoints_key = Some [\<lparr>markName = ''p1'', timeSeconds = 1\<rparr>,
                                                          \<lparr>markName = ''p2'', timeSeconds = 2.5\<rparr>]\<rparr>\<rparr>)"


definition sample_audio_ms :: "string \<Rightarrow> nat option" where
  "sample_audio_ms audio_data = (if audio_data = ''SUQz'' then Some 4000 else None)"

definition sample_audio_folder :: pure_path where
  "sample_audio_folder = \<lparr>path_anchor = [], path_parts = [''output'', ''audio'']\<rparr>"

definition sample_timepoint_folder :: pure_path where
  "sample_timepoint_folder = \<lparr>path_anchor = [], path_parts = [''output'', ''timepoints'']\<rparr>"

definition sample_chapter ::
  "string \<Rightarrow> nat \<Rightarrow> disk \<Rightarrow> (error + (string \<times> timepoint list)) \<times> disk" where
  "sample_chapter =
     process_chapter 4900 sample_audio_folder sample_timepoint_folder sample_read_text
       (synthesize_to_file sample_post sample_audio_ms ''en-US-Wavenet-D'')"


section \<open>Properties of the chunker\<close>

subsection \<open>The round trip\<close>

text \<open>
  The tokens of \<^verbatim>\<open>re.split\<close> concatenate to the text, and the loop moves every token
  into \<^verbatim>\<open>current\<close> and from there into a chunk.
\<close>

lemma dewrap_wrap: "dewrap (wrap s) = s"
  by (simp add: dewrap_def wrap_def speak_open_def speak_close_def)

lemma length_wrap: "length (wrap s) = length s + 15"
  by (simp add: wrap_def speak_open_def speak_close_def)

lemma concat_re_split_aux: "concat (re_split_aux cur s) = cur @ s"
proof (induction cur s rule: re_split_aux.induct)
  case (1 cur)
  show ?case by simp
next
  case (2 cur c cs)
  show ?case
  proof (cases "match_mark (c # cs)")
    case None
    with 2 show ?thesis by simp
  next
    case (Some p)
    obtain tag rest where p: "p = (tag, rest)" by (cases p)
    from Some p have d: "c # cs = tag @ rest"
      by (simp add: match_mark_decomp)
    from "2.IH" Some p have ih: "concat (re_split_aux [] rest) = rest"
      by simp
    from Some p ih have "concat (re_split_aux cur (c # cs)) = cur @ tag @ rest"
      by simp
    with d show ?thesis by simp
  qed
qed

lemma concat_re_split: "concat (re_split s) = s"
  by (simp add: re_split_def concat_re_split_aux)

lemma chunk_loop_concat:
  "chunk_loop m ps chunks cur = (chunks', cur') \<Longrightarrow>
   concat (map dewrap chunks') @ cur' = concat (map dewrap chunks) @ cur @ concat ps"
  by (induction ps arbitrary: chunks cur) (auto simp: dewrap_wrap split: if_splits)

lemma split_ssml_roundtrip:
  "concat (map dewrap (split_ssml m ssml)) = strip_wrapper ssml"
proof (cases "int (length (strip_wrapper ssml)) \<le> m")
  case True
  then show ?thesis by (simp add: split_ssml_def dewrap_wrap)
next
  case False
  obtain chunks cur where l: "chunk_loop m (re_split (strip_wrapper ssml)) [] [] = (chunks, cur)"
    by (cases "chunk_loop m (re_split (strip_wrapper ssml)) [] []")
  from chunk_loop_concat [OF l]
  have "concat (map dewrap chunks) @ cur = strip_wrapper ssml"
    by (simp add: concat_re_split)
  with False l show ?thesis
    by (auto simp: split_ssml_def dewrap_wrap)
qed

lemma strip_wrap: "strip (wrap doc) = wrap doc"
  by (simp add: strip_def wrap_def speak_open_def speak_close_def is_space_def)

lemma strip_wrapper_wrap: "strip_wrapper (wrap doc) = doc"
  by (simp add: strip_wrapper_def strip_wrap)
     (simp add: wrap_def speak_open_def speak_close_def startswith_def endswith_def)

subsection \<open>Chunks are cut between tokens\<close>

text \<open>
  No token boundary lies inside a marker tag, and every chunk ends at a token boundary;
  so the chunk that holds the first position of a tag holds the tag whole, and no other
  chunk does.
\<close>

lemma token_bounds_ge: "c \<in> set (token_bounds pos ps) \<Longrightarrow> pos \<le> c"
  by (induction ps arbitrary: pos) fastforce+

lemma token_bounds_last: "pos + length (concat ps) \<in> set (token_bounds pos ps)"
proof (induction ps arbitrary: pos)
  case Nil
  show ?case by simp
next
  case (Cons p ps)
  from Cons.IH [of "pos + length p"] show ?case
    by (simp add: add.assoc)
qed

lemma mark_spans_range:
  "(a, b) \<in> set (mark_spans pos s) \<Longrightarrow> pos \<le> a \<and> a < b \<and> b \<le> pos + length s"
proof (induction pos s rule: mark_spans.induct)
  case (1 pos)
  then show ?case by simp
next
  case (2 pos c cs)
  show ?case
  proof (cases "match_mark (c # cs)")
    case None
    with 2 show ?thesis by fastforce
  next
    case (Some p)
    obtain tag rest where p: "p = (tag, rest)" by (cases p)
    from Some p have d: "length (c # cs) = length tag + length rest"
      using match_mark_decomp by (metis length_append)
    from Some p have t: "16 \<le> length tag"
      using match_mark_tag_length by simp
    from "2.prems" Some p
    consider "a = pos" "b = pos + length tag" | "(a, b) \<in> set (mark_spans (pos + length tag) rest)"
      by auto
    then show ?thesis
    proof cases
      case 1
      from t have "0 < length tag" by linarith
      with d 1 show ?thesis by simp
    next
      case 2
      with "2.IH"(2) Some p have "pos + length tag \<le> a \<and> a < b \<and> b \<le> pos + length tag + length rest"
        by simp
      with d show ?thesis by simp
    qed
  qed
qed

lemma mark_spans_token_bounds:
  "(a, b) \<in> set (mark_spans pos s) \<Longrightarrow> length cur \<le> pos \<Longrightarrow>
   c \<in> set (token_bounds (pos - length cur) (re_split_aux cur s)) \<Longrightarrow> c \<le> a \<or> b \<le> c"
proof (induction cur s arbitrary: pos rule: re_split_aux.induct)
  case (1 cur)
  then show ?case by simp
next
  case (2 cur x xs)
  show ?case
  proof (cases "match_mark (x # xs)")
    case None
    from "2.prems" None have s: "(a, b) \<in> set (mark_spans (Suc pos) xs)"
      and t: "c \<in> set (token_bounds (Suc pos - length (cur @ [x])) (re_split_aux (cur @ [x]) xs))"
      by simp_all
    from "2.prems" have "length (cur @ [x]) \<le> Suc pos" by simp
    from "2.IH"(1) [OF None s this t] show ?thesis .
  next
    case (Some p)
    obtain tag rest where p: "p = (tag, rest)" by (cases p)
    let ?q = "pos + length tag"
    from "2.prems" Some p
    have c: "c = pos - length cur \<or> c = pos \<or> c \<in> set (token_bounds ?q (re_split_aux [] rest))"
      by auto
    from "2.prems" Some p
    consider "a = pos" "b = ?q" | "(a, b) \<in> set (mark_spans ?q rest)"
      by auto
    then show ?thesis
    proof cases
      case 1
      have "?q \<le> c" if "c \<in> set (token_bounds ?q (re_split_aux [] rest))"
        using that by (rule token_bounds_ge)
      with c 1 show ?thesis by auto
    next
      case 2
      from mark_spans_range [OF 2] have "?q \<le> a" by simp
      moreover have "c \<le> a \<or> b \<le> c"
        if h: "c \<in> set (token_bounds ?q (re_split_aux [] rest))"
      proof (rule "2.IH"(2) [OF Some p [symmetric] 2])
        show "length ([]::string) \<le> ?q" by simp
        from h show "c \<in> set (token_bounds (?q - length ([]::string)) (re_split_aux [] rest))"
          by simp
      qed
      ultimately show ?thesis using c by auto
    qed
  qed
qed

lemma chunk_spans_append:
  "chunk_spans pos (xs @ ys) =
   chunk_spans pos xs @ chunk_spans (pos + length (concat (map dewrap xs))) ys"
  by (induction xs arbitrary: pos) (simp_all add: add.assoc)

lemma chunk_loop_cuts:
  "chunk_loop m ps chunks cur = (chunks', cur') \<Longrightarrow>
   snd ` set (chunk_spans 0 chunks') \<subseteq>
     snd ` set (chunk_spans 0 chunks) \<union>
     set (token_bounds (length (concat (map dewrap chunks)) + length cur) ps)"
proof (induction ps arbitrary: chunks cur)
  case Nil
  then show ?case by auto
next
  case (Cons part parts)
  show ?case
  proof (cases "int (length cur) + int (length part) > m")
    case True
    with Cons.prems have "chunk_loop m parts (chunks @ [wrap cur]) part = (chunks', cur')"
      by simp
    from Cons.IH [OF this] show ?thesis
      by (auto simp: chunk_spans_append dewrap_wrap add.assoc)
  next
    case False
    with Cons.prems have "chunk_loop m parts chunks (cur @ part) = (chunks', cur')"
      by simp
    from Cons.IH [OF this] show ?thesis
      by (auto simp: add.assoc)
  qed
qed

lemma split_ssml_cuts:
  "snd ` set (chunk_spans 0 (split_ssml m ssml)) \<subseteq>
   set (token_bounds 0 (re_split (strip_wrapper ssml)))"
proof (cases "int (length (strip_wrapper ssml)) \<le> m")
  case True
  have "0 + length (concat (re_split (strip_wrapper ssml)))
        \<in> set (token_bounds 0 (re_split (strip_wrapper ssml)))"
    by (rule token_bounds_last)
  with True show ?thesis
    by (simp add: split_ssml_def dewrap_wrap concat_re_split)
next
  case False
  let ?ps = "re_split (strip_wrapper ssml)"
  obtain chunks cur where l: "chunk_loop m ?ps [] [] = (chunks, cur)"
    by (cases "chunk_loop m ?ps [] []")
  from chunk_loop_cuts [OF l]
  have a: "snd ` set (chunk_spans 0 chunks) \<subseteq> set (token_bounds 0 ?ps)"
    by simp
  from chunk_loop_concat [OF l]
  have "length (concat (map dewrap chunks)) + length cur = length (concat ?ps)"
    by (metis append_Nil concat.simps(1) list.simps(8) length_append)
  moreover have "0 + length (concat ?ps) \<in> set (token_bounds 0 ?ps)"
    by (rule token_bounds_last)
  ultimately have b: "length (concat (map dewrap chunks)) + length cur \<in> set (token_bounds 0 ?ps)"
    by simp
  from False l a b show ?thesis
    by (auto simp: split_ssml_def chunk_spans_append dewrap_wrap)
qed

lemma chunk_spans_ge: "(s, e) \<in> set (chunk_spans pos cs) \<Longrightarrow> pos \<le> s"
  by (induction cs arbitrary: pos) fastforce+

lemma exactly_one_chunk:
  assumes "pos \<le> a" "a < b" "b \<le> pos + length (concat (map dewrap cs))"
    and "\<And>c. c \<in> snd ` set (chunk_spans pos cs) \<Longrightarrow> c \<le> a \<or> b \<le> c"
  shows "length (filter (holds_whole (a, b)) (chunk_spans pos cs)) = 1"
  using assms
proof (induction cs arbitrary: pos)
  case Nil
  then show ?case by simp
next
  case (Cons c cs)
  let ?e = "pos + length (dewrap c)"
  from Cons.prems(4) [of ?e] have cut: "?e \<le> a \<or> b \<le> ?e"
    by simp
  show ?case
  proof (cases "?e \<le> a")
    case True
    have "length (filter (holds_whole (a, b)) (chunk_spans ?e cs)) = 1"
    proof (rule Cons.IH [OF True Cons.prems(2)])
      from Cons.prems(3) show "b \<le> ?e + length (concat (map dewrap cs))"
        by simp
    next
      fix x assume "x \<in> snd ` set (chunk_spans ?e cs)"
      then show "x \<le> a \<or> b \<le> x"
        using Cons.prems(4) [of x] by simp
    qed
    moreover from True Cons.prems(2) have "\<not> holds_whole (a, b) (pos, ?e)"
      by (simp add: holds_whole_def)
    ultimately show ?thesis by simp
  next
    case False
    with cut have b: "b \<le> ?e" by simp
    with Cons.prems(1) have "holds_whole (a, b) (pos, ?e)"
      by (simp add: holds_whole_def)
    moreover have "filter (holds_whole (a, b)) (chunk_spans ?e cs) = []"
    proof -
      have "\<not> holds_whole (a, b) sp" if "sp \<in> set (chunk_spans ?e cs)" for sp
      proof -
        obtain s e where sp: "sp = (s, e)" by (cases sp)
        with that chunk_spans_ge have "?e \<le> s" by blast
        with b Cons.prems(2) sp show ?thesis
          by (simp add: holds_whole_def)
      qed
      then show ?thesis by (simp add: filter_empty_conv)
    qed
    ultimately show ?thesis by simp
  qed
qed

lemma marks_whole:
  "\<forall>tag \<in> set (mark_spans 0 (strip_wrapper ssml)).
     length (filter (holds_whole tag) (chunk_spans 0 (split_ssml m ssml))) = 1"
proof
  fix tag assume t: "tag \<in> set (mark_spans 0 (strip_wrapper ssml))"
  obtain a b where ab: "tag = (a, b)" by (cases tag)
  from t ab mark_spans_range [of a b 0 "strip_wrapper ssml"]
  have r: "0 \<le> a" "a < b" "b \<le> 0 + length (strip_wrapper ssml)"
    by simp_all
  have "length (filter (holds_whole (a, b)) (chunk_spans 0 (split_ssml m ssml))) = 1"
  proof (rule exactly_one_chunk [OF r(1) r(2)])
    from r(3) show "b \<le> 0 + length (concat (map dewrap (split_ssml m ssml)))"
      by (simp add: split_ssml_roundtrip)
  next
    fix c assume "c \<in> snd ` set (chunk_spans 0 (split_ssml m ssml))"
    with split_ssml_cuts have "c \<in> set (token_bounds 0 (re_split (strip_wrapper ssml)))"
      by blast
    then have "c \<in> set (token_bounds (0 - length ([]::string)) (re_split_aux [] (strip_wrapper ssml)))"
      by (simp add: re_split_def)
    with t ab mark_spans_token_bounds [of a b 0 "strip_wrapper ssml" "[]" c]
    show "c \<le> a \<or> b \<le> c" by simp
  qed
  with ab show "length (filter (holds_whole tag) (chunk_spans 0 (split_ssml m ssml))) = 1"
    by simp
qed

subsection \<open>The budget\<close>

text \<open>
  The invariant of the loop: \<^verbatim>\<open>current\<close> and the content of every chunk fit the budget
  or are a single token.
\<close>

lemma chunk_loop_fits:
  assumes "chunk_loop m ps chunks cur = (chunks', cur')"
    and "set ps \<subseteq> T"
    and "\<forall>c \<in> set chunks. c = wrap (dewrap c) \<and> fits m T (dewrap c)"
    and "fits m T cur"
  shows "(\<forall>c \<in> set chunks'. c = wrap (dewrap c) \<and> fits m T (dewrap c)) \<and> fits m T cur'"
  using assms
proof (induction ps arbitrary: chunks cur)
  case Nil
  then show ?case by simp
next
  case (Cons part parts)
  from Cons.prems(2) have sub: "set parts \<subseteq> T" and part: "part \<in> T"
    by simp_all
  show ?case
  proof (cases "int (length cur) + int (length part) > m")
    case True
    with Cons.prems(1) have l: "chunk_loop m parts (chunks @ [wrap cur]) part = (chunks', cur')"
      by simp
    from Cons.prems(3,4)
    have c: "\<forall>c \<in> set (chunks @ [wrap cur]). c = wrap (dewrap c) \<and> fits m T (dewrap c)"
      by (simp add: dewrap_wrap)
    from part have "fits m T part"
      by (simp add: fits_def)
    from Cons.IH [OF l sub c this] show ?thesis .
  next
    case False
    with Cons.prems(1) have l: "chunk_loop m parts chunks (cur @ part) = (chunks', cur')"
      by simp
    from False have "fits m T (cur @ part)"
      by (simp add: fits_def)
    from Cons.IH [OF l sub Cons.prems(3) this] show ?thesis .
  qed
qed

subsection \<open>Every tag of the template is found\<close>

text \<open>
  A tag written by the template matches the pattern, and a match that starts before
  such a tag ends before it: the two double quotes of the match cannot fall on the
  tag, whose opening has one double quote followed by \<open>p\<close>.
\<close>

lemma decimal_digits: "set (decimal n) \<subseteq> set ''0123456789''"
proof (induction n rule: decimal.induct)
  case (1 n)
  show ?case
  proof (cases "n < 10")
    case True
    then have "''0123456789'' ! n \<in> set ''0123456789''"
      by (intro nth_mem) simp
    with True show ?thesis
      by (subst decimal.simps) simp
  next
    case False
    have "''0123456789'' ! (n mod 10) \<in> set ''0123456789''"
      by (intro nth_mem) simp
    with False "1.IH" show ?thesis
      by (subst decimal.simps) simp
  qed
qed

lemma decimal_no_dq: "dq \<notin> set (decimal n)"
  using decimal_digits [of n] by (auto simp: dq_def)

lemma takeWhile_until:
  "x \<notin> set xs \<Longrightarrow> takeWhile (\<lambda>c. c \<noteq> x) (xs @ x # ys) = xs"
  by (induction xs) auto

lemma dropWhile_until:
  "x \<notin> set xs \<Longrightarrow> dropWhile (\<lambda>c. c \<noteq> x) (xs @ x # ys) = x # ys"
  by (induction xs) auto

lemma marker_tpl_match: "match_mark (marker_tpl n @ v) = Some (marker_tpl n, v)"
proof -
  let ?name = "CHR ''p'' # decimal n"
  have nq: "dq \<notin> set ?name"
    using decimal_no_dq [of n] by (simp add: dq_def)
  have t: "marker_tpl n @ v = mark_open @ ?name @ dq # (''/>'' @ v)"
    by (simp add: marker_tpl_def mark_close_def)
  have st: "startswith (marker_tpl n @ v) mark_open"
    unfolding t by (simp add: startswith_def)
  have body: "drop (length mark_open) (marker_tpl n @ v) = ?name @ dq # (''/>'' @ v)"
    unfolding t by simp
  have tw: "takeWhile (\<lambda>c. c \<noteq> dq) (?name @ dq # (''/>'' @ v)) = ?name"
    by (rule takeWhile_until [OF nq])
  have dw: "dropWhile (\<lambda>c. c \<noteq> dq) (?name @ dq # (''/>'' @ v)) = dq # (''/>'' @ v)"
    by (rule dropWhile_until [OF nq])
  have cl: "startswith (dq # (''/>'' @ v)) mark_close"
    by (simp add: startswith_def mark_close_def)
  have dr: "drop (length mark_close) (dq # (''/>'' @ v)) = v"
    by (simp add: mark_close_def)
  have tg: "mark_open @ ?name @ mark_close = marker_tpl n"
    by (simp add: marker_tpl_def)
  show ?thesis
    unfolding match_mark_def Let_def body tw dw
    using st cl dr tg by simp
qed

lemma match_mark_shape:
  assumes "match_mark s = Some (tag, rest)"
  obtains name where "tag = mark_open @ name @ mark_close" "name \<noteq> []" "dq \<notin> set name"
proof -
  let ?name = "takeWhile (\<lambda>c. c \<noteq> dq) (drop (length mark_open) s)"
  from assms have "tag = mark_open @ ?name @ mark_close" "?name \<noteq> []"
    by (auto simp: match_mark_def Let_def split: if_splits)
  moreover have "dq \<notin> set ?name"
    by (auto dest: set_takeWhileD)
  ultimately show ?thesis by (rule that)
qed

lemma marker_tpl_nth:
  "marker_tpl n ! 0 = CHR ''<''" "marker_tpl n ! 11 = dq" "marker_tpl n ! 12 = CHR ''p''"
  "j < 11 \<Longrightarrow> marker_tpl n ! j \<noteq> dq" "16 \<le> length (marker_tpl n)"
proof -
  show "marker_tpl n ! 0 = CHR ''<''" "marker_tpl n ! 11 = dq" "marker_tpl n ! 12 = CHR ''p''"
    by (simp_all add: marker_tpl_def mark_open_def nth_append)
  show "16 \<le> length (marker_tpl n)"
  proof -
    have "decimal n \<noteq> []"
      by (subst decimal.simps) simp
    then have "1 \<le> length (decimal n)"
      by (cases "decimal n") simp_all
    then show ?thesis
      by (simp add: marker_tpl_def mark_open_def mark_close_def)
  qed
  show "marker_tpl n ! j \<noteq> dq" if "j < 11"
  proof -
    have d: "marker_tpl n = butlast mark_open @ (dq # CHR ''p'' # decimal n @ mark_close)"
      by (simp add: marker_tpl_def mark_open_def)
    have l: "length (butlast mark_open) = 11"
      by (simp add: mark_open_def)
    have "length mark_open = 12"
      by (simp add: mark_open_def)
    with that have "marker_tpl n ! j = butlast mark_open ! j"
      unfolding d by (simp add: nth_append)
    moreover from that have "butlast mark_open ! j \<in> set (butlast mark_open)"
      by (intro nth_mem) (simp add: mark_open_def)
    moreover have "dq \<notin> set (butlast mark_open)"
      by (simp add: mark_open_def dq_def)
    ultimately show ?thesis by metis
  qed
qed

lemma tag_nth:
  assumes "tag = mark_open @ name @ mark_close" "dq \<notin> set name"
  shows "0 < k \<Longrightarrow> k < 12 \<Longrightarrow> tag ! k \<noteq> CHR ''<''"
    and "12 + length name \<le> k \<Longrightarrow> k < length tag \<Longrightarrow> tag ! k \<noteq> CHR ''<''"
    and "12 \<le> k \<Longrightarrow> k < 12 + length name \<Longrightarrow> tag ! k \<noteq> dq"
    and "tag ! (12 + length name) = dq"
    and "tag ! (13 + length name) = CHR ''/''"
    and "length tag = 15 + length name"
proof -
  have lo: "length mark_open = 12" by (simp add: mark_open_def)
  show len: "length tag = 15 + length name"
    by (simp add: assms(1) lo mark_close_def)
  show "tag ! k \<noteq> CHR ''<''" if "0 < k" "k < 12"
  proof -
    from that obtain k' where k: "k = Suc k'" by (cases k) simp_all
    with that have "tag ! k = tl mark_open ! k'"
      by (simp add: assms(1) nth_append lo nth_tl)
    moreover from that k have "tl mark_open ! k' \<in> set (tl mark_open)"
      by (intro nth_mem) (simp add: lo)
    moreover have "CHR ''<'' \<notin> set (tl mark_open)"
      by (simp add: mark_open_def dq_def)
    ultimately show ?thesis by metis
  qed
  show "tag ! k \<noteq> CHR ''<''" if "12 + length name \<le> k" "k < length tag"
  proof -
    from that have "\<not> k < 12" and "\<not> k - 12 < length name"
      by linarith+
    then have "tag ! k = mark_close ! (k - 12 - length name)"
      by (simp add: assms(1) nth_append lo)
    moreover from that len have "mark_close ! (k - 12 - length name) \<in> set mark_close"
      by (intro nth_mem) (simp add: mark_close_def)
    moreover have "CHR ''<'' \<notin> set mark_close"
      by (simp add: mark_close_def dq_def)
    ultimately show ?thesis by metis
  qed
  show "tag ! k \<noteq> dq" if "12 \<le> k" "k < 12 + length name"
  proof -
    from that have "\<not> k < 12" and "k - 12 < length name"
      by linarith+
    then have "tag ! k = name ! (k - 12)"
      by (simp add: assms(1) nth_append lo)
    moreover from that have "name ! (k - 12) \<in> set name"
      by (intro nth_mem) simp
    ultimately show ?thesis using assms(2) by metis
  qed
  show "tag ! (12 + length name) = dq"
    by (simp add: assms(1) nth_append lo mark_close_def)
  show "tag ! (13 + length name) = CHR ''/''"
    by (simp add: assms(1) nth_append lo mark_close_def)
qed

lemma match_before_marker:
  assumes m: "match_mark (u @ marker_tpl n @ v) = Some (tag, rest)" and u: "u \<noteq> []"
  shows "length tag \<le> length u"
proof (rule ccontr)
  assume "\<not> length tag \<le> length u"
  then have k: "length u < length tag" by simp
  let ?s = "u @ marker_tpl n @ v"
  let ?t = "marker_tpl n"
  let ?k = "length u"
  from match_mark_shape [OF m] obtain name
    where tag: "tag = mark_open @ name @ mark_close" and nq: "dq \<notin> set name"
    by blast
  note tn = tag_nth [OF tag nq]
  from match_mark_decomp [OF m] have s: "?s = tag @ rest" .
  have in_tag: "?s ! i = tag ! i" if "i < length tag" for i
    using that by (simp add: s nth_append)
  have in_tpl: "?s ! (?k + j) = ?t ! j" if "j < length ?t" for j
    using that by (simp add: nth_append)
  have tl: "16 \<le> length ?t" by (rule marker_tpl_nth)
  from u have k0: "0 < ?k" by simp
  from tl have "0 < length ?t" by linarith
  from in_tpl [OF this] have "?s ! ?k = CHR ''<''"
    using marker_tpl_nth(1) [of n] by simp
  with in_tag [OF k] have lt: "tag ! ?k = CHR ''<''" by simp
  have k12: "12 \<le> ?k"
  proof (rule ccontr)
    assume "\<not> 12 \<le> ?k"
    with k0 tn(1) [of ?k] lt show False by simp
  qed
  have kq: "?k < 12 + length name"
  proof (rule ccontr)
    assume "\<not> ?k < 12 + length name"
    with k tn(2) [of ?k] lt show False by simp
  qed
  let ?q = "12 + length name"
  have sq: "?s ! ?q = dq"
    using in_tag [of ?q] tn(4) tn(6) by simp
  consider "?q - ?k < 11" | "?q - ?k = 11" | "11 < ?q - ?k" by linarith
  then show False
  proof cases
    case 1
    with tl kq have "?s ! (?k + (?q - ?k)) = ?t ! (?q - ?k)"
      by (intro in_tpl) simp
    with kq sq have "?t ! (?q - ?k) = dq" by simp
    with marker_tpl_nth(4) [OF 1, of n] show False by simp
  next
    case 2
    then have e: "?k + 12 = 13 + length name" by simp
    have "?s ! (?k + 12) = ?t ! 12"
      using tl by (intro in_tpl) simp
    then have "?s ! (13 + length name) = CHR ''p''"
      using e marker_tpl_nth(3) [of n] by simp
    moreover have "?s ! (13 + length name) = CHR ''/''"
      using in_tag [of "13 + length name"] tn(5) tn(6) by simp
    ultimately show False by simp
  next
    case 3
    have "?s ! (?k + 11) = ?t ! 11"
      using tl by (intro in_tpl) simp
    then have "?s ! (?k + 11) = dq"
      using marker_tpl_nth(2) [of n] by simp
    moreover from 3 tn(6) have "?s ! (?k + 11) = tag ! (?k + 11)"
      by (intro in_tag) simp
    moreover from 3 k12 have "tag ! (?k + 11) \<noteq> dq"
      by (intro tn(3)) simp_all
    ultimately show False by simp
  qed
qed

lemma marker_tpl_found:
  "s = u @ marker_tpl n @ v \<Longrightarrow>
   (pos + length u, pos + length u + length (marker_tpl n)) \<in> set (mark_spans pos s)"
proof (induction pos s arbitrary: u rule: mark_spans.induct)
  case (1 pos)
  from marker_tpl_nth(5) [of n] have "marker_tpl n \<noteq> []" by auto
  with 1 show ?case by simp
next
  case (2 pos c cs)
  show ?case
  proof (cases u)
    case Nil
    with "2.prems" have "match_mark (c # cs) = Some (marker_tpl n, v)"
      using marker_tpl_match [of n v] by simp
    with Nil show ?thesis by simp
  next
    case (Cons x u')
    with "2.prems" have cs: "cs = u' @ marker_tpl n @ v" by simp
    show ?thesis
    proof (cases "match_mark (c # cs)")
      case None
      from "2.IH"(1) [OF None cs] None Cons show ?thesis by simp
    next
      case (Some p)
      obtain tag rest where p: "p = (tag, rest)" by (cases p)
      from Some p "2.prems" have m: "match_mark (u @ marker_tpl n @ v) = Some (tag, rest)"
        by simp
      from Cons have "u \<noteq> []" by simp
      from match_before_marker [OF m this] have le: "length tag \<le> length u" .
      from match_mark_decomp [OF m] have d: "u @ marker_tpl n @ v = tag @ rest" .
      from le d have u: "u = tag @ drop (length tag) u"
        by (metis append_eq_append_conv_if append_take_drop_id)
      with d have "tag @ drop (length tag) u @ marker_tpl n @ v = tag @ rest"
        by (metis append.assoc)
      then have r: "rest = drop (length tag) u @ marker_tpl n @ v" by simp
      from "2.IH"(2) [OF Some p [symmetric] r]
      have "(pos + length tag + length (drop (length tag) u),
             pos + length tag + length (drop (length tag) u) + length (marker_tpl n))
            \<in> set (mark_spans (pos + length tag) rest)" .
      moreover from le have "pos + length tag + length (drop (length tag) u) = pos + length u"
        by simp
      ultimately show ?thesis using Some p by simp
    qed
  qed
qed

section \<open>Properties of the timeline accumulator\<close>

text \<open>The loop in closed form, and the order of its timestamps as an invariant.\<close>

lemma timeline_loop_closed_form:
  "timeline_loop (map Inr rs) g off =
   Inr (g @ concat (map (\<lambda>k. map (\<lambda>tp. \<lparr>markName = markName tp,
                                         timeSeconds = (off + sum_list (map duration (take k rs))) + timeSeconds tp\<rparr>)
                                 (timepoints (rs ! k)))
                        [0..<length rs]),
        off + sum_list (map duration rs))"
proof (induction rs arbitrary: g off)
  case Nil
  show ?case by simp
next
  case (Cons r rs)
  show ?case
    by (simp add: Cons.IH map_upt_Suc add.assoc del: upt_Suc)
qed

lemma timeline_loop_sorted:
  assumes "list_all well_timed rs"
    and "sorted (map timeSeconds g)"
    and "\<forall>tp \<in> set g. timeSeconds tp \<le> off"
    and "timeline_loop (map Inr rs) g off = Inr (tline, final)"
  shows "sorted (map timeSeconds tline)"
  using assms
proof (induction rs arbitrary: g off)
  case Nil
  then show ?case by simp
next
  case (Cons r rs)
  let ?new = "map (\<lambda>tp. \<lparr>markName = markName tp, timeSeconds = off + timeSeconds tp\<rparr>) (timepoints r)"
  from Cons.prems(1) have r: "well_timed r" and rs: "list_all well_timed rs"
    by simp_all
  have times: "map timeSeconds ?new = map (\<lambda>t. off + t) (map timeSeconds (timepoints r))"
    by (simp add: comp_def)
  from r have "sorted (map timeSeconds (timepoints r))"
    by (simp add: well_timed_def)
  then have s_new: "sorted (map timeSeconds ?new)"
    unfolding times by (simp add: sorted_map mono_def monotone_on_def sorted_wrt_map)
  from r have lo: "\<forall>tp \<in> set ?new. off \<le> timeSeconds tp"
    and hi: "\<forall>tp \<in> set ?new. timeSeconds tp \<le> off + duration r"
    by (auto simp: well_timed_def list_all_iff)
  from Cons.prems(2,3) s_new lo have a: "sorted (map timeSeconds (g @ ?new))"
    by (fastforce simp: sorted_append)
  from r have "0 \<le> duration r" by (simp add: well_timed_def)
  with Cons.prems(3) hi have b: "\<forall>tp \<in> set (g @ ?new). timeSeconds tp \<le> off + duration r"
    by fastforce
  from Cons.prems(4) have c: "timeline_loop (map Inr rs) (g @ ?new) (off + duration r) = Inr (tline, final)"
    by simp
  from Cons.IH [OF rs a b c] show ?case .
qed

lemma timeline_loop_error:
  "\<exists>exc. Inl exc \<in> set outcomes \<Longrightarrow> \<exists>exc. timeline_loop outcomes g off = Inl exc"
proof (induction outcomes arbitrary: g off)
  case Nil
  then show ?case by simp
next
  case (Cons x xs)
  show ?case
  proof (cases x)
    case (Inl e)
    then show ?thesis by simp
  next
    case (Inr r)
    with Cons.prems have "\<exists>exc. Inl exc \<in> set xs" by auto
    from Cons.IH [OF this] Inr show ?thesis by simp
  qed
qed

section \<open>Properties of the video timeline builder\<close>

text \<open>
  The boundaries do not decrease when the timeline lies within the audio; the clip loop
  then keeps its chain of clips up to the boundary it has reached.
\<close>

lemma load_timepoints_sort: "load_timepoints points = sort (map timeSeconds points)"
proof -
  have "sort (map timeSeconds points) = map timeSeconds (sort_key timeSeconds points)"
    by (rule properties_for_sort) (simp_all add: sorted_sort_key)
  then show ?thesis by (simp add: load_timepoints_def)
qed

lemma sorted_interior: "sorted (interior_transitions points images)"
  by (simp add: interior_transitions_def load_timepoints_sort Let_def sorted_wrt_take)

lemma length_interior:
  "length (interior_transitions points images) = min (length points) (length images)"
  by (simp add: interior_transitions_def load_timepoints_sort Let_def)

lemma set_interior:
  "set (interior_transitions points images) \<subseteq> timeSeconds ` set points"
proof -
  have "set (take n (sort (map timeSeconds points))) \<subseteq> timeSeconds ` set points" for n
    using set_take_subset [of n "sort (map timeSeconds points)"] by simp
  then show ?thesis
    by (simp add: interior_transitions_def load_timepoints_sort Let_def)
qed

lemma sorted_all_transitions:
  assumes "in_range duration_total points"
  shows "sorted (all_transitions points images duration_total)"
proof -
  have "\<forall>t \<in> set (interior_transitions points images). 0 \<le> t \<and> t \<le> duration_total"
    using set_interior [of points images] assms
    by (auto simp: in_range_def list_all_iff)
  moreover from assms have "0 \<le> duration_total"
    by (simp add: in_range_def)
  ultimately show ?thesis
    by (auto simp: all_transitions_def sorted_append sorted_interior)
qed

lemma contiguous_snoc:
  "contiguous (cs @ [c]) = (contiguous cs \<and> (cs \<noteq> [] \<longrightarrow> clip_end (last cs) = clip_start c))"
  by (induction cs rule: contiguous.induct) auto

lemma clip_loop_chain:
  assumes "sorted T" "j < length T" "i \<le> j" "chain T clips i"
  shows "chain T (clip_loop T images [i..<j] clips)
           (if length images \<le> i then i else min j (length images))"
  using assms(3,4)
proof (induction "j - i" arbitrary: i clips)
  case 0
  then show ?case by simp
next
  case (Suc n)
  then have lt: "i < j" by simp
  then have up: "[i..<j] = i # [Suc i..<j]"
    by (simp add: upt_conv_Cons)
  show ?case
  proof (cases "length images \<le> i")
    case True
    with up Suc.prems show ?thesis by simp
  next
    case False
    from lt assms(1,2) have le: "T ! i \<le> T ! Suc i"
      by (simp add: sorted_iff_nth_mono)
    from Suc.hyps(2) have n: "n = j - Suc i" by simp
    from lt have sj: "Suc i \<le> j" by simp
    have idx: "(if length images \<le> Suc i then Suc i else min j (length images))
               = min j (length images)"
      using False sj by auto
    show ?thesis
    proof (cases "T ! Suc i - T ! i \<le> 0")
      case True
      with le have "T ! Suc i = T ! i" by simp
      with Suc.prems(2) have "chain T clips (Suc i)"
        by (simp add: chain_def)
      from Suc.hyps(1) [OF n sj this] idx False True up show ?thesis
        by (simp add: Let_def)
    next
      case pos: False
      let ?c = "\<lparr>clip_image = images ! i, clip_start = T ! i, clip_duration = T ! Suc i - T ! i\<rparr>"
      have e: "clip_end ?c = T ! Suc i"
        by (simp add: clip_end_def)
      have "chain T (clips @ [?c]) (Suc i)"
      proof (cases "clips = []")
        case True
        with Suc.prems(2) show ?thesis
          by (simp add: chain_def clip_end_def)
      next
        case False
        with Suc.prems(2) show ?thesis
          by (simp add: chain_def contiguous_snoc e)
      qed
      from Suc.hyps(1) [OF n sj this] idx False pos up show ?thesis
        by (simp add: Let_def)
    qed
  qed
qed

lemma build_clips_chain:
  assumes "images \<noteq> []" "in_range duration_total points"
  shows "chain (all_transitions points images duration_total)
           (build_clips points images duration_total)
           (min (Suc (min (length points) (length images))) (length images))"
proof -
  let ?T = "all_transitions points images duration_total"
  have len: "length ?T - 1 = Suc (min (length points) (length images))"
    by (simp add: all_transitions_def length_interior)
  have "chain ?T (clip_loop ?T images [0..<length ?T - 1] [])
          (if length images \<le> 0 then 0 else min (length ?T - 1) (length images))"
    by (rule clip_loop_chain [OF sorted_all_transitions [OF assms(2)]])
       (simp_all add: chain_def all_transitions_def)
  with assms(1) len show ?thesis
    by (simp add: build_clips_def Let_def)
qed

lemma all_transitions_last:
  assumes "images \<noteq> []"
  shows "all_transitions points images duration_total
           ! (min (Suc (min (length points) (length images))) (length images))
         = last_boundary points images duration_total"
proof (cases "length points < length images")
  case True
  then have "interior_transitions points images = sort (map timeSeconds points)"
    by (simp add: interior_transitions_def load_timepoints_sort)
  with True show ?thesis
    by (simp add: all_transitions_def last_boundary_def nth_append min_def)
next
  case False
  with assms have m: "min (Suc (min (length points) (length images))) (length images) = length images"
    by simp
  from assms obtain k where k: "length images = Suc k"
    by (cases images) simp_all
  from False k have "interior_transitions points images ! k = sort (map timeSeconds points) ! k"
    by (simp add: interior_transitions_def load_timepoints_sort Let_def)
  moreover from False k have "k < length (interior_transitions points images)"
    by (simp add: length_interior)
  ultimately show ?thesis
    using False k unfolding m
    by (simp add: all_transitions_def last_boundary_def nth_append)
qed

text \<open>
  Contiguity needs no range: the interior boundaries are sorted, so an interval between
  two clips that is dropped has no duration; only the first and the last interval can
  have a negative one.
\<close>

lemma clip_loop_contiguous:
  assumes "\<And>k. 1 \<le> k \<Longrightarrow> Suc k < j \<Longrightarrow> T ! k \<le> T ! Suc k"
    and "i \<le> j"
    and "contiguous clips"
    and "clips \<noteq> [] \<Longrightarrow> clip_end (last clips) = T ! i \<and> 1 \<le> i"
  shows "contiguous (clip_loop T images [i..<j] clips)"
  using assms(2,3,4)
proof (induction "j - i" arbitrary: i clips)
  case 0
  then show ?case by simp
next
  case (Suc n)
  then have lt: "i < j" by simp
  then have up: "[i..<j] = i # [Suc i..<j]"
    by (simp add: upt_conv_Cons)
  from Suc.hyps(2) have n: "n = j - Suc i" by simp
  from lt have sj: "Suc i \<le> j" by simp
  show ?case
  proof (cases "length images \<le> i")
    case True
    with up Suc.prems show ?thesis by simp
  next
    case False
    show ?thesis
    proof (cases "T ! Suc i - T ! i \<le> 0")
      case pos: False
      let ?c = "\<lparr>clip_image = images ! i, clip_start = T ! i, clip_duration = T ! Suc i - T ! i\<rparr>"
      have c: "contiguous (clips @ [?c])"
        using Suc.prems(2,3) by (simp add: contiguous_snoc)
      have e: "clips @ [?c] \<noteq> [] \<Longrightarrow> clip_end (last (clips @ [?c])) = T ! Suc i \<and> 1 \<le> Suc i"
        by (simp add: clip_end_def)
      from Suc.hyps(1) [OF n sj c e] False pos up show ?thesis
        by (simp add: Let_def)
    next
      case True
      show ?thesis
      proof (cases "clips = [] \<or> Suc i = j")
        case stop: True
        then show ?thesis
        proof
          assume "clips = []"
          then have "clips \<noteq> [] \<Longrightarrow> clip_end (last clips) = T ! Suc i \<and> 1 \<le> Suc i"
            by simp
          from Suc.hyps(1) [OF n sj Suc.prems(2) this] False True up show ?thesis
            by (simp add: Let_def)
        next
          assume "Suc i = j"
          with False True up Suc.prems(2) show ?thesis
            by (simp add: Let_def)
        qed
      next
        case go: False
        then have ne: "clips \<noteq> []" and "Suc i < j" using sj by simp_all
        with Suc.prems(3) have "1 \<le> i" by simp
        with assms(1) [of i] \<open>Suc i < j\<close> have "T ! i \<le> T ! Suc i" by simp
        with True have "T ! Suc i = T ! i" by simp
        with Suc.prems(3) have "clips \<noteq> [] \<Longrightarrow> clip_end (last clips) = T ! Suc i \<and> 1 \<le> Suc i"
          by simp
        from Suc.hyps(1) [OF n sj Suc.prems(2) this] False True up show ?thesis
          by (simp add: Let_def)
      qed
    qed
  qed
qed

lemma build_clips_contiguous: "contiguous (build_clips points images duration_total)"
proof -
  let ?I = "interior_transitions points images"
  let ?T = "all_transitions points images duration_total"
  have len: "length ?T - 1 = Suc (length ?I)"
    by (simp add: all_transitions_def)
  have step: "?T ! k \<le> ?T ! Suc k" if "1 \<le> k" "Suc k < length ?T - 1" for k
  proof -
    from that obtain k' where k: "k = Suc k'" by (cases k) simp_all
    with that len have lt: "Suc k' < length ?I" by simp
    then have "?I ! k' \<le> ?I ! Suc k'"
      using sorted_interior [of points images] by (simp add: sorted_iff_nth_mono)
    with lt k show ?thesis
      by (simp add: all_transitions_def nth_append)
  qed
  have "contiguous (clip_loop ?T images [0..<length ?T - 1] [])"
    by (rule clip_loop_contiguous [OF step]) simp_all
  then show ?thesis
    by (simp add: build_clips_def Let_def)
qed

section \<open>Properties of the batch run\<close>




section \<open>The sample runs\<close>

text \<open>The two chapters of the sample runs, step by step.\<close>

lemma sample_chunks_1:
  "split_ssml 4900 (wrap (strip (sample_read_text ''scripts/chapter1.txt''))) = [wrap ''bad'']"
  by code_simp


lemma wrap_doc_not_bad: "wrap sample_doc \<noteq> wrap ''bad''"
  by code_simp


lemma sample_synth_doc:
  "synthesize_chunk sample_post sample_audio_ms voice (wrap sample_doc) =
     Inr \<lparr>duration = 4, timepoints = [\<lparr>markName = ''p1'', timeSeconds = 1\<rparr>,
                                       \<lparr>markName = ''p2'', timeSeconds = 2.5\<rparr>]\<rparr>"
  by (simp add: synthesize_chunk_def sample_post_def sample_audio_ms_def wrap_doc_not_bad)










section \<open>The claims\<close>

subsection \<open>C1: the accumulator rebases local timestamps by the running offset\<close>

text \<open>
  Claim C1. Starting from offset 0, the timestamps of chunk \<open>k\<close> are moved by the sum of
  the durations of the chunks before it, the chunks and their markers keep their order,
  and the final offset is the sum of all durations. For the two chunks of the scenario
  (duration 4.0 with \<open>(p1, 1.0)\<close>, duration 3.0 with \<open>(p2, 0.5)\<close>) the timeline is
  \<open>[(p1, 1.0), (p2, 4.5)]\<close> and the total duration is 7.0.
\<close>

theorem timeline_rebased:
  "timeline_loop (map Inr rs) [] 0 =
     Inr (concat (map (\<lambda>k. map (\<lambda>tp. \<lparr>markName = markName tp,
                                       timeSeconds = sum_list (map duration (take k rs)) + timeSeconds tp\<rparr>)
                               (timepoints (rs ! k)))
                      [0..<length rs]),
          sum_list (map duration rs)) \<and>
   timeline_loop
     [Inr \<lparr>duration = 4, timepoints = [\<lparr>markName = ''p1'', timeSeconds = 1\<rparr>]\<rparr>,
      Inr \<lparr>duration = 3, timepoints = [\<lparr>markName = ''p2'', timeSeconds = 0.5\<rparr>]\<rparr>] [] 0 =
     Inr ([\<lparr>markName = ''p1'', timeSeconds = 1\<rparr>, \<lparr>markName = ''p2'', timeSeconds = 4.5\<rparr>], 7)"
proof
  show "timeline_loop (map Inr rs) [] 0 =
     Inr (concat (map (\<lambda>k. map (\<lambda>tp. \<lparr>markName = markName tp,
                                       timeSeconds = sum_list (map duration (take k rs)) + timeSeconds tp\<rparr>)
                               (timepoints (rs ! k)))
                      [0..<length rs]),
          sum_list (map duration rs))"
    using timeline_loop_closed_form [of rs "[]" 0] by simp
next
  show "timeline_loop
     [Inr \<lparr>duration = 4, timepoints = [\<lparr>markName = ''p1'', timeSeconds = 1\<rparr>]\<rparr>,
      Inr \<lparr>duration = 3, timepoints = [\<lparr>markName = ''p2'', timeSeconds = 0.5\<rparr>]\<rparr>] [] 0 =
     Inr ([\<lparr>markName = ''p1'', timeSeconds = 1\<rparr>, \<lparr>markName = ''p2'', timeSeconds = 4.5\<rparr>], 7)"
    by simp
qed

subsection \<open>C2: the accumulated timestamps and their order\<close>

text \<open>
  The loop holds no check of the order: a chunk whose local timestamps decrease is
  accepted, and the timeline it gives decreases.
\<close>

theorem timeline_decreasing_counterexample:
  "timeline_loop
     [Inr \<lparr>duration = 4, timepoints = [\<lparr>markName = ''p1'', timeSeconds = 2\<rparr>,
                                         \<lparr>markName = ''p2'', timeSeconds = 1\<rparr>]\<rparr>] [] 0 =
     Inr ([\<lparr>markName = ''p1'', timeSeconds = 2\<rparr>, \<lparr>markName = ''p2'', timeSeconds = 1\<rparr>], 4) \<and>
   \<not> sorted (map timeSeconds
        [\<lparr>markName = ''p1'', timeSeconds = 2\<rparr>, \<lparr>markName = ''p2'', timeSeconds = 1\<rparr>])"
  by simp

text \<open>
  Claim C2, as amended. The accumulator returns a timeline for every sequence of
  synthesis results and raises nothing of its own. The timestamps it returns do not
  decrease whenever every result is well timed: its duration is not negative, and its
  local timestamps do not decrease and lie between 0 and its duration.
\<close>

theorem timeline_nondecreasing:
  "(\<exists>tline final. timeline_loop (map Inr rs) [] 0 = Inr (tline, final)) \<and>
   (list_all well_timed rs \<longrightarrow>
      (\<forall>tline final. timeline_loop (map Inr rs) [] 0 = Inr (tline, final) \<longrightarrow>
         sorted (map timeSeconds tline)))"
proof
  show "\<exists>tline final. timeline_loop (map Inr rs) [] 0 = Inr (tline, final)"
    using timeline_loop_closed_form [of rs "[]" 0] by blast
next
  show "list_all well_timed rs \<longrightarrow>
      (\<forall>tline final. timeline_loop (map Inr rs) [] 0 = Inr (tline, final) \<longrightarrow>
         sorted (map timeSeconds tline))"
    using timeline_loop_sorted [of rs "[]" 0] by simp
qed

theorem timeline_nondecreasing_witness:
  "list_all well_timed
     [\<lparr>duration = 4, timepoints = [\<lparr>markName = ''p1'', timeSeconds = 1\<rparr>]\<rparr>,
      \<lparr>duration = 3, timepoints = [\<lparr>markName = ''p2'', timeSeconds = 0.5\<rparr>]\<rparr>] \<and>
   timeline_loop (map Inr
     [\<lparr>duration = 4, timepoints = [\<lparr>markName = ''p1'', timeSeconds = 1\<rparr>]\<rparr>,
      \<lparr>duration = 3, timepoints = [\<lparr>markName = ''p2'', timeSeconds = 0.5\<rparr>]\<rparr>]) [] 0 =
     Inr ([\<lparr>markName = ''p1'', timeSeconds = 1\<rparr>, \<lparr>markName = ''p2'', timeSeconds = 4.5\<rparr>], 7) \<and>
   sorted (map timeSeconds
     [\<lparr>markName = ''p1'', timeSeconds = 1\<rparr>, \<lparr>markName = ''p2'', timeSeconds = 4.5\<rparr>])"
proof -
  let ?rs = "[\<lparr>duration = 4, timepoints = [\<lparr>markName = ''p1'', timeSeconds = 1\<rparr>]\<rparr>,
      \<lparr>duration = 3, timepoints = [\<lparr>markName = ''p2'', timeSeconds = 0.5\<rparr>]\<rparr>]"
  let ?tline = "[\<lparr>markName = ''p1'', timeSeconds = 1\<rparr>, \<lparr>markName = ''p2'', timeSeconds = 4.5\<rparr>]"
  have w: "list_all well_timed ?rs"
    by (simp add: well_timed_def)
  have l: "timeline_loop (map Inr ?rs) [] 0 = Inr (?tline, 7)"
    by simp
  from timeline_nondecreasing [of ?rs] w l have "sorted (map timeSeconds ?tline)"
    by blast
  with w l show ?thesis by blast
qed

subsection \<open>C3: failures of the chunk synthesizer\<close>

text \<open>
  An answer with audio and without the \<^verbatim>\<open>timepoints\<close> key, for a chunk that holds the
  marker \<open>p1\<close>, is accepted with an empty list of timestamps.
\<close>

theorem missing_timepoints_counterexample:
  "mark_spans 0 (strip_wrapper (wrap (''A'' @ marker_tpl 1 @ ''B''))) = [(1, 18)] \<and>
   synthesize_chunk
     (\<lambda>request. Some \<lparr>status_ok = True,
                  json_body = Some \<lparr>audioContent = Some ''SUQz'', timepoints_key = None\<rparr>\<rparr>)
     (\<lambda>audio_data. Some 4000) ''en-US-Wavenet-D'' (wrap (''A'' @ marker_tpl 1 @ ''B'')) =
     Inr \<lparr>duration = 4, timepoints = []\<rparr>"
proof
  show "mark_spans 0 (strip_wrapper (wrap (''A'' @ marker_tpl 1 @ ''B''))) = [(1, 18)]"
    by code_simp
next
  show "synthesize_chunk
     (\<lambda>request. Some \<lparr>status_ok = True,
                  json_body = Some \<lparr>audioContent = Some ''SUQz'', timepoints_key = None\<rparr>\<rparr>)
     (\<lambda>audio_data. Some 4000) ''en-US-Wavenet-D'' (wrap (''A'' @ marker_tpl 1 @ ''B'')) =
     Inr \<lparr>duration = 4, timepoints = []\<rparr>"
    by (simp add: synthesize_chunk_def)
qed

text \<open>
  Claim C3, as amended. The synthesizer raises an error exactly when the call of the
  service fails: no answer, an error status, a body that is not JSON, no
  \<^verbatim>\<open>audioContent\<close>, or audio that cannot be decoded. Otherwise it returns the
  timestamps of the answer, and the empty list when the answer has none. An error for
  any chunk of a chapter is an error of the chapter's run.
\<close>

theorem synthesis_failures:
  "(isl (synthesize_chunk post audio_ms voice ssml_chunk) \<longleftrightarrow>
      response_fails audio_ms (post \<lparr>input_ssml = ssml_chunk, voice_name = voice\<rparr>)) \<and>
   (\<forall>result. synthesize_chunk post audio_ms voice ssml_chunk = Inr result \<longrightarrow>
      timepoints result =
        answer_timepoints (post \<lparr>input_ssml = ssml_chunk, voice_name = voice\<rparr>)) \<and>
   ((\<exists>c \<in> set (split_ssml max_ssml_length (wrap (strip (read_text txt_file)))).
        isl (synthesize_chunk post audio_ms voice c)) \<longrightarrow>
      isl (fst (process_chapter max_ssml_length audio_folder timepoint_folder read_text
                  (synthesize_to_file post audio_ms voice) txt_file chapter_number files)))"
proof (intro conjI)
  show "isl (synthesize_chunk post audio_ms voice ssml_chunk) \<longleftrightarrow>
      response_fails audio_ms (post \<lparr>input_ssml = ssml_chunk, voice_name = voice\<rparr>)"
    by (simp add: synthesize_chunk_def response_fails_def split: option.splits)
next
  show "\<forall>result. synthesize_chunk post audio_ms voice ssml_chunk = Inr result \<longrightarrow>
      timepoints result =
        answer_timepoints (post \<lparr>input_ssml = ssml_chunk, voice_name = voice\<rparr>)"
    by (auto simp: synthesize_chunk_def answer_timepoints_def split: option.splits if_splits)
next
  let ?synth = "synthesize_chunk post audio_ms voice"
  let ?call = "synthesize_to_file post audio_ms voice"
  let ?chunks = "split_ssml max_ssml_length (wrap (strip (read_text txt_file)))"
  show "(\<exists>c \<in> set ?chunks. isl (?synth c)) \<longrightarrow>
      isl (fst (process_chapter max_ssml_length audio_folder timepoint_folder read_text ?call
                  txt_file chapter_number files))"
  proof
    assume "\<exists>c \<in> set ?chunks. isl (?synth c)"
    then obtain c where c: "c \<in> set ?chunks" and "isl (?synth c)" by blast
    then obtain e where "?synth c = Inl e" by (cases "?synth c") simp_all
    with c have "\<exists>exc. Inl exc \<in> set (map ?synth ?chunks)"
      by (metis image_eqI list.set_map)
    from timeline_loop_error [OF this] obtain exc
      where tl: "timeline_loop (map ?synth ?chunks) [] 0 = Inl exc" by blast
    have m: "map snd (map ?call ?chunks) = map ?synth ?chunks"
      by (simp add: synthesize_to_file_def comp_def)
    have l: "timeline_loop (map snd (map ?call ?chunks)) [] 0 = Inl exc"
      unfolding m by (rule tl)
    show "isl (fst (process_chapter max_ssml_length audio_folder timepoint_folder
                      read_text ?call txt_file chapter_number files))"
      unfolding process_chapter_def Let_def l by simp
  qed
qed

theorem synthesis_failures_witness:
  "response_fails sample_audio_ms
     (sample_post \<lparr>input_ssml = wrap ''bad'', voice_name = ''en-US-Wavenet-D''\<rparr>) \<and>
   isl (synthesize_chunk sample_post sample_audio_ms ''en-US-Wavenet-D'' (wrap ''bad'')) \<and>
   synthesize_chunk sample_post sample_audio_ms ''en-US-Wavenet-D'' (wrap sample_doc) =
     Inr \<lparr>duration = 4, timepoints = [\<lparr>markName = ''p1'', timeSeconds = 1\<rparr>,
                                       \<lparr>markName = ''p2'', timeSeconds = 2.5\<rparr>]\<rparr> \<and>
   wrap ''bad'' \<in> set (split_ssml 4900 (wrap (strip (sample_read_text ''scripts/chapter1.txt'')))) \<and>
   isl (fst (sample_chapter ''scripts/chapter1.txt'' 1 clean_disk))"
proof -
  let ?v = "''en-US-Wavenet-D''"
  note t = synthesis_failures [of sample_post sample_audio_ms ?v "wrap ''bad''" 4900
      sample_read_text "''scripts/chapter1.txt''" sample_audio_folder sample_timepoint_folder
      1 clean_disk]
  have f: "response_fails sample_audio_ms (sample_post \<lparr>input_ssml = wrap ''bad'', voice_name = ?v\<rparr>)"
    by (simp add: response_fails_def sample_post_def)
  with t have i: "isl (synthesize_chunk sample_post sample_audio_ms ?v (wrap ''bad''))"
    by blast
  have c: "wrap ''bad'' \<in> set (split_ssml 4900 (wrap (strip (sample_read_text ''scripts/chapter1.txt''))))"
    by (simp add: sample_chunks_1)
  with i t have p: "isl (fst (sample_chapter ''scripts/chapter1.txt'' 1 clean_disk))"
    unfolding sample_chapter_def by blast
  have r: "synthesize_chunk sample_post sample_audio_ms ?v (wrap sample_doc) =
     Inr \<lparr>duration = 4, timepoints = [\<lparr>markName = ''p1'', timeSeconds = 1\<rparr>,
                                       \<lparr>markName = ''p2'', timeSeconds = 2.5\<rparr>]\<rparr>"
    by (rule sample_synth_doc)
  from f i r c p show ?thesis by blast
qed

subsection \<open>C4: the round trip of the chunker\<close>

text \<open>
  Claim C4. For every marked document and every maximum chunk length, the contents of
  the chunks (the text between \<^verbatim>\<open><speak>\<close> and \<^verbatim>\<open></speak>\<close>), concatenated in order,
  are the document again. \<^verbatim>\<open>process_chapter\<close> hands the document over wrapped; for any
  other input the contents give the input as lines 44 to 48 strip and unwrap it.
\<close>

theorem chunker_roundtrip:
  "concat (map dewrap (split_ssml m (wrap doc))) = doc \<and>
   concat (map dewrap (split_ssml m ssml)) = strip_wrapper ssml"
  by (simp add: split_ssml_roundtrip strip_wrapper_wrap)

subsection \<open>C5: no marker tag is split\<close>

text \<open>
  Claim C5. For every marked document and every budget, the contents of the chunks
  make up the document, and the range of every marker tag of the document lies whole
  within the range of exactly one chunk. This holds for the tags the pattern of line 53
  finds, and every occurrence of a tag \<^verbatim>\<open><mark name="pN"/>\<close> in the document is one
  of them.
\<close>

theorem marker_tags_whole:
  "concat (map dewrap (split_ssml m ssml)) = strip_wrapper ssml \<and>
   (\<forall>tag \<in> set (mark_spans 0 (strip_wrapper ssml)).
      length (filter (holds_whole tag) (chunk_spans 0 (split_ssml m ssml))) = 1) \<and>
   (\<forall>u n v. strip_wrapper ssml = u @ marker_tpl n @ v \<longrightarrow>
      length (filter (holds_whole (length u, length u + length (marker_tpl n)))
                (chunk_spans 0 (split_ssml m ssml))) = 1)"
proof (intro conjI allI impI)
  show "concat (map dewrap (split_ssml m ssml)) = strip_wrapper ssml"
    by (rule split_ssml_roundtrip)
next
  show "\<forall>tag \<in> set (mark_spans 0 (strip_wrapper ssml)).
      length (filter (holds_whole tag) (chunk_spans 0 (split_ssml m ssml))) = 1"
    by (rule marks_whole)
next
  fix u n v
  assume "strip_wrapper ssml = u @ marker_tpl n @ v"
  from marker_tpl_found [OF this, of 0]
  have "(length u, length u + length (marker_tpl n)) \<in> set (mark_spans 0 (strip_wrapper ssml))"
    by simp
  with marks_whole [of ssml m]
  show "length (filter (holds_whole (length u, length u + length (marker_tpl n)))
                (chunk_spans 0 (split_ssml m ssml))) = 1"
    by blast
qed

theorem marker_tags_whole_witness:
  "strip_wrapper (wrap sample_doc) = ''A'' @ marker_tpl 1 @ (''B'' @ marker_tpl 2 @ ''C'') \<and>
   (1, 18) \<in> set (mark_spans 0 (strip_wrapper (wrap sample_doc))) \<and>
   chunk_spans 0 (split_ssml 20 (wrap sample_doc)) = [(0, 19), (19, 37)] \<and>
   length (filter (holds_whole (length ''A'', length ''A'' + length (marker_tpl 1)))
             (chunk_spans 0 (split_ssml 20 (wrap sample_doc)))) = 1 \<and>
   length (filter (holds_whole (1, 18)) (chunk_spans 0 (split_ssml 20 (wrap sample_doc)))) = 1"
proof -
  note t = marker_tags_whole [of 20 "wrap sample_doc"]
  have d: "strip_wrapper (wrap sample_doc) = ''A'' @ marker_tpl 1 @ (''B'' @ marker_tpl 2 @ ''C'')"
    by (simp add: strip_wrapper_wrap sample_doc_def)
  have s: "(1, 18) \<in> set (mark_spans 0 (strip_wrapper (wrap sample_doc)))"
    by code_simp
  have c: "chunk_spans 0 (split_ssml 20 (wrap sample_doc)) = [(0, 19), (19, 37)]"
    by code_simp
  from t d
  have a: "length (filter (holds_whole (length ''A'', length ''A'' + length (marker_tpl 1)))
             (chunk_spans 0 (split_ssml 20 (wrap sample_doc)))) = 1"
    by blast
  from t s
  have b: "length (filter (holds_whole (1, 18)) (chunk_spans 0 (split_ssml 20 (wrap sample_doc)))) = 1"
    by blast
  from d s c a b show ?thesis by blast
qed

subsection \<open>C6: the length of a chunk\<close>

text \<open>
  The budget is compared with the content, and the wrapper is added afterwards. With the
  maximum 33 the sample document is split into two chunks, and the first one has 34
  characters, although every token of the document stays within 33 characters even with
  the wrapper around it.
\<close>

theorem rendered_length_counterexample:
  "split_ssml 33 (wrap sample_doc) =
     [wrap (''A'' @ marker_tpl 1 @ ''B''), wrap (marker_tpl 2 @ ''C'')] \<and>
   length (wrap (''A'' @ marker_tpl 1 @ ''B'')) = 34 \<and>
   list_all (\<lambda>seg. int (length (wrap seg)) \<le> 33) (re_split (strip_wrapper (wrap sample_doc))) \<and>
   \<not> (\<forall>c \<in> set (split_ssml 33 (wrap sample_doc)).
        int (length c) \<le> 33 \<or>
        (\<exists>seg \<in> set (re_split (strip_wrapper (wrap sample_doc))).
           match_mark seg = None \<and> int (length (wrap seg)) > 33))"
  by code_simp

text \<open>
  Claim C6, as amended. Every chunk is the wrapper around its content, 15 characters
  longer than the content, and the content (not the rendered chunk) does not exceed the
  maximum, unless it is empty or it is a single token of the document, a text between
  two marker tags or one marker tag, which then stands in a chunk of its own.
\<close>

theorem chunk_content_fits:
  "\<forall>c \<in> set (split_ssml m ssml).
     c = wrap (dewrap c) \<and> int (length c) = int (length (dewrap c)) + 15 \<and>
     fits m (set (re_split (strip_wrapper ssml))) (dewrap c)"
proof (cases "int (length (strip_wrapper ssml)) \<le> m")
  case True
  then show ?thesis
    by (simp add: split_ssml_def dewrap_wrap fits_def length_wrap)
next
  case False
  let ?T = "set (re_split (strip_wrapper ssml))"
  obtain chunks cur where l: "chunk_loop m (re_split (strip_wrapper ssml)) [] [] = (chunks, cur)"
    by (cases "chunk_loop m (re_split (strip_wrapper ssml)) [] []")
  have "(\<forall>c \<in> set chunks. c = wrap (dewrap c) \<and> fits m ?T (dewrap c)) \<and> fits m ?T cur"
    by (rule chunk_loop_fits [OF l]) (simp_all add: fits_def)
  then have "\<forall>c \<in> set (split_ssml m ssml). c = wrap (dewrap c) \<and> fits m ?T (dewrap c)"
    using False l by (auto simp: split_ssml_def dewrap_wrap)
  moreover have "int (length c) = int (length (dewrap c)) + 15" if "c = wrap (dewrap c)" for c
    using length_wrap [of "dewrap c"] that by simp
  ultimately show ?thesis by blast
qed

theorem chunk_content_fits_witness:
  "split_ssml 5 (wrap (''A'' @ marker_tpl 1 @ ''BC'')) =
     [wrap ''A'', wrap (marker_tpl 1), wrap ''BC''] \<and>
   wrap (marker_tpl 1) = wrap (dewrap (wrap (marker_tpl 1))) \<and>
   int (length (wrap (marker_tpl 1))) = int (length (dewrap (wrap (marker_tpl 1)))) + 15 \<and>
   fits 5 (set (re_split (strip_wrapper (wrap (''A'' @ marker_tpl 1 @ ''BC'')))))
     (dewrap (wrap (marker_tpl 1)))"
proof -
  let ?doc = "wrap (''A'' @ marker_tpl 1 @ ''BC'')"
  have s: "split_ssml 5 ?doc = [wrap ''A'', wrap (marker_tpl 1), wrap ''BC'']"
    by code_simp
  then have "wrap (marker_tpl 1) \<in> set (split_ssml 5 ?doc)"
    by simp
  with chunk_content_fits [of 5 ?doc] s show ?thesis
    by blast
qed

subsection \<open>C7: the display intervals\<close>

text \<open>
  With two markers and two images the interval from the last marker to the end of
  the audio is never built: the intervals end at 2.5, not at the total duration 7.
\<close>

theorem intervals_cover_counterexample:
  "build_clips [\<lparr>markName = ''p1'', timeSeconds = 1\<rparr>, \<lparr>markName = ''p2'', timeSeconds = 2.5\<rparr>]
     [''1-a.png'', ''2-b.png''] 7 =
     [\<lparr>clip_image = ''1-a.png'', clip_start = 0, clip_duration = 1\<rparr>,
      \<lparr>clip_image = ''2-b.png'', clip_start = 1, clip_duration = 1.5\<rparr>] \<and>
   clip_end (last (build_clips
     [\<lparr>markName = ''p1'', timeSeconds = 1\<rparr>, \<lparr>markName = ''p2'', timeSeconds = 2.5\<rparr>]
     [''1-a.png'', ''2-b.png''] 7)) \<noteq> 7"
  by (simp add: build_clips_def all_transitions_def interior_transitions_def load_timepoints_def
      upt_conv_Cons clip_end_def)

text \<open>
  Claim C7, as amended. For every timeline and every list of images the intervals are
  contiguous. When the list of images is not empty and the timestamps lie between 0 and
  the total duration, the first interval, when there is one, starts at 0, and the last
  one ends at the total duration when there are more images than markers, and otherwise
  at the marker whose rank in ascending time is the number of images. No interval is
  built only when that final boundary is 0.
\<close>

theorem intervals_contiguous:
  "contiguous (build_clips points images duration_total) \<and>
   (images \<noteq> [] \<and> in_range duration_total points \<longrightarrow>
      (build_clips points images duration_total \<noteq> [] \<longrightarrow>
         clip_start (hd (build_clips points images duration_total)) = 0 \<and>
         clip_end (last (build_clips points images duration_total))
           = last_boundary points images duration_total) \<and>
      (build_clips points images duration_total = [] \<longrightarrow>
         last_boundary points images duration_total = 0))"
proof (intro conjI impI)
  show "contiguous (build_clips points images duration_total)"
    by (rule build_clips_contiguous)
next
  assume a: "images \<noteq> [] \<and> in_range duration_total points"
  then have i: "images \<noteq> []" and r: "in_range duration_total points" by simp_all
  have z: "all_transitions points images duration_total ! 0 = 0"
    by (simp add: all_transitions_def)
  note c = build_clips_chain [OF i r, unfolded chain_def all_transitions_last [OF i] z]
  {
    assume "build_clips points images duration_total \<noteq> []"
    with c show "clip_start (hd (build_clips points images duration_total)) = 0"
      and "clip_end (last (build_clips points images duration_total))
           = last_boundary points images duration_total"
      by blast+
  }
  {
    assume "build_clips points images duration_total = []"
    with c show "last_boundary points images duration_total = 0"
      by blast
  }
qed

theorem intervals_contiguous_witness:
  "[''1-a.png'', ''2-b.png'', ''3-c.png''] \<noteq> [] \<and>
   in_range 7 [\<lparr>markName = ''p1'', timeSeconds = 1\<rparr>, \<lparr>markName = ''p2'', timeSeconds = 2.5\<rparr>] \<and>
   build_clips [\<lparr>markName = ''p1'', timeSeconds = 1\<rparr>, \<lparr>markName = ''p2'', timeSeconds = 2.5\<rparr>]
     [''1-a.png'', ''2-b.png'', ''3-c.png''] 7 =
     [\<lparr>clip_image = ''1-a.png'', clip_start = 0, clip_duration = 1\<rparr>,
      \<lparr>clip_image = ''2-b.png'', clip_start = 1, clip_duration = 1.5\<rparr>,
      \<lparr>clip_image = ''3-c.png'', clip_start = 2.5, clip_duration = 4.5\<rparr>] \<and>
   contiguous (build_clips
     [\<lparr>markName = ''p1'', timeSeconds = 1\<rparr>, \<lparr>markName = ''p2'', timeSeconds = 2.5\<rparr>]
     [''1-a.png'', ''2-b.png'', ''3-c.png''] 7) \<and>
   clip_end (last (build_clips
     [\<lparr>markName = ''p1'', timeSeconds = 1\<rparr>, \<lparr>markName = ''p2'', timeSeconds = 2.5\<rparr>]
     [''1-a.png'', ''2-b.png'', ''3-c.png''] 7)) = 7"
proof -
  let ?points = "[\<lparr>markName = ''p1'', timeSeconds = 1\<rparr>, \<lparr>markName = ''p2'', timeSeconds = 2.5\<rparr>]"
  let ?images = "[''1-a.png'', ''2-b.png'', ''3-c.png'']"
  have i: "?images \<noteq> []" by simp
  have r: "in_range 7 ?points" by (simp add: in_range_def)
  have b: "build_clips ?points ?images 7 =
     [\<lparr>clip_image = ''1-a.png'', clip_start = 0, clip_duration = 1\<rparr>,
      \<lparr>clip_image = ''2-b.png'', clip_start = 1, clip_duration = 1.5\<rparr>,
      \<lparr>clip_image = ''3-c.png'', clip_start = 2.5, clip_duration = 4.5\<rparr>]"
    by (simp add: build_clips_def all_transitions_def interior_transitions_def
        load_timepoints_def upt_conv_Cons)
  then have n: "build_clips ?points ?images 7 \<noteq> []" by simp
  have l: "last_boundary ?points ?images 7 = 7" by (simp add: last_boundary_def)
  from intervals_contiguous [of ?points ?images 7] i r n l
  have "contiguous (build_clips ?points ?images 7) \<and>
        clip_end (last (build_clips ?points ?images 7)) = 7"
    by simp
  with i r b show ?thesis by blast
qed

subsection \<open>C8: an interval without duration\<close>

text \<open>
  Claim C8. An interval whose duration is zero or negative is dropped and its image is
  skipped: with two markers at the same time the second image gets no clip. When every
  interval is dropped the list of clips is empty, and line 79 reads its first element:
  one marker at time 0 and one image end in an \<^verbatim>\<open>IndexError\<close>, where the claim asks
  for a run without an error.
\<close>

theorem no_clips_index_error:
  "create_chapter_video True 5
     [\<lparr>markName = ''p1'', timeSeconds = 1\<rparr>, \<lparr>markName = ''p2'', timeSeconds = 1\<rparr>]
     [''1-a.png'', ''2-b.png'', ''3-c.png''] =
     Inr (Video [\<lparr>clip_image = ''1-a.png'', clip_start = 0, clip_duration = 1\<rparr>,
                 \<lparr>clip_image = ''3-c.png'', clip_start = 1, clip_duration = 4\<rparr>]) \<and>
   build_clips [\<lparr>markName = ''p1'', timeSeconds = 0\<rparr>] [''1-a.png''] 5 = [] \<and>
   create_chapter_video True 5 [\<lparr>markName = ''p1'', timeSeconds = 0\<rparr>] [''1-a.png'']
     = Inl IndexError"
  by (simp add: create_chapter_video_def build_clips_def all_transitions_def
      interior_transitions_def load_timepoints_def upt_conv_Cons)

subsection \<open>C9: the batch run and its summary\<close>




subsection \<open>C10: the timepoints are sorted by time\<close>

text \<open>
  Claim C10. The timepoints are loaded in ascending order of their time, whatever
  their stored order: the loaded list is the sorted list of the stored times, with the
  same elements. The interior boundaries the builder uses are that sorted list cut to the
  number of images, so they do not decrease, and the full boundary list is 0, these
  boundaries and the total duration. Two records stored as 5 and 2 are loaded as 2 and 5.
\<close>

theorem timepoints_sorted_by_time:
  "load_timepoints points = sort (map timeSeconds points) \<and>
   sorted (load_timepoints points) \<and>
   mset (load_timepoints points) = mset (map timeSeconds points) \<and>
   interior_transitions points images = take (length images) (sort (map timeSeconds points)) \<and>
   sorted (interior_transitions points images) \<and>
   all_transitions points images duration_total =
     0 # take (length images) (sort (map timeSeconds points)) @ [duration_total] \<and>
   load_timepoints [\<lparr>markName = ''p1'', timeSeconds = 5\<rparr>, \<lparr>markName = ''p2'', timeSeconds = 2\<rparr>]
     = [2, 5]"
proof -
  have i: "interior_transitions points images = take (length images) (sort (map timeSeconds points))"
    by (simp add: interior_transitions_def load_timepoints_sort Let_def)
  show ?thesis
  proof (intro conjI)
    show "load_timepoints points = sort (map timeSeconds points)"
      by (rule load_timepoints_sort)
    show "sorted (load_timepoints points)"
      by (simp add: load_timepoints_sort)
    show "mset (load_timepoints points) = mset (map timeSeconds points)"
      by (simp add: load_timepoints_sort)
    show "interior_transitions points images = take (length images) (sort (map timeSeconds points))"
      by (rule i)
    show "sorted (interior_transitions points images)"
      by (rule sorted_interior)
    show "all_transitions points images duration_total =
       0 # take (length images) (sort (map timeSeconds points)) @ [duration_total]"
      by (simp add: all_transitions_def i)
    show "load_timepoints [\<lparr>markName = ''p1'', timeSeconds = 5\<rparr>, \<lparr>markName = ''p2'', timeSeconds = 2\<rparr>]
       = [2, 5]"
      by (simp add: load_timepoints_def)
  qed
qed

end
